theory Spec2Isabelle
  imports Main "HOL-Library.Sublist"
begin
section \<open>JavaScript string primitives used by the browser agent\<close>

text \<open>
  Strings are character lists. The source works on UTF-16 strings; here a character is a
  byte, so a code point beyond ASCII is its UTF-8 byte sequence, and \<open>toLowerCase\<close>,
  \<open>trim\<close> and the class \<open>\S\<close> of a regular expression act on the ASCII range only (letters
  A-Z, the six ASCII white-space characters).
\<close>

definition newline :: string where
  "newline = [CHR 0x0A]"

definition is_space :: "char \<Rightarrow> bool" where
  "is_space c \<longleftrightarrow>
     c = CHR 0x20 \<or> c = CHR 0x09 \<or> c = CHR 0x0A \<or> c = CHR 0x0B \<or> c = CHR 0x0C \<or> c = CHR 0x0D"

text \<open>\<^verbatim>\<open>String.prototype.trim\<close>\<close>

definition trim :: "string \<Rightarrow> string" where
  "trim s = rev (dropWhile is_space (rev (dropWhile is_space s)))"

definition lower_char :: "char \<Rightarrow> char" where
  "lower_char c =
     (let n = (of_char c :: nat) in if 65 \<le> n \<and> n \<le> 90 then char_of (n + 32) else c)"

text \<open>\<^verbatim>\<open>String.prototype.toLowerCase\<close>\<close>

definition toLowerCase :: "string \<Rightarrow> string" where
  "toLowerCase s = map lower_char s"

text \<open>\<^verbatim>\<open>String.prototype.includes\<close>: does \<open>sub\<close> occur in \<open>s\<close> as a contiguous run.\<close>

fun str_includes :: "string \<Rightarrow> string \<Rightarrow> bool" where
  "str_includes [] sub = (sub = [])"
| "str_includes (c # cs) sub = (prefix sub (c # cs) \<or> str_includes cs sub)"

text \<open>
  \<^verbatim>\<open>String.prototype.split\<close> with a string separator: the pieces between successive
  non-overlapping occurrences of the separator, scanning from the left. The result is
  never empty.
\<close>

fun split_str :: "string \<Rightarrow> string \<Rightarrow> string list" where
  "split_str sep [] = [[]]"
| "split_str sep (c # cs) =
     (if sep \<noteq> [] \<and> prefix sep (c # cs)
      then [] # split_str sep (drop (length sep) (c # cs))
      else (case split_str sep cs of
              [] \<Rightarrow> [[c]]
            | p # ps \<Rightarrow> (c # p) # ps))"

text \<open>\<^verbatim>\<open>Array.prototype.join\<close>\<close>

fun join :: "string \<Rightarrow> string list \<Rightarrow> string" where
  "join sep [] = []"
| "join sep [x] = x"
| "join sep (x # y # ys) = x @ sep @ join sep (y # ys)"

text \<open>
  \<^verbatim>\<open>line.match(/uid=(\S+)/)\<close>: the leftmost position where \<open>uid=\<close> is followed by at least
  one non-space character; the capture group is the longest run of non-space characters
  there.
\<close>

fun uid_match :: "string \<Rightarrow> string option" where
  "uid_match [] = None"
| "uid_match (c # cs) =
     (let run = takeWhile (\<lambda>x. \<not> is_space x) (drop 4 (c # cs))
      in if prefix ''uid='' (c # cs) \<and> run \<noteq> [] then Some run else uid_match cs)"


section \<open>Overlay heuristic: \<open>detectBlockingOverlays\<close>\<close>

definition overlayRoles :: "string list" where
  "overlayRoles = [''dialog'', ''alertdialog'', ''tooltip'']"

definition closeButtonPatterns :: "string list" where
  "closeButtonPatterns =
     [''close'', ''dismiss'', ''got it'', ''no thanks'', ''accept'', ''ok'',
      [CHR 0xC3, CHR 0x97], ''x button'', ''cancel'']"

definition role_attr :: "string \<Rightarrow> string" where
  "role_attr role = ''role='' @ [CHR 0x22] @ role @ [CHR 0x22]"

definition role_word :: "string \<Rightarrow> string" where
  "role_word role = '' '' @ role @ '' ''"

definition aria_modal :: string where
  "aria_modal = ''aria-modal='' @ [CHR 0x22] @ ''true'' @ [CHR 0x22]"

text \<open>The test of the inner loop over \<open>overlayRoles\<close>.\<close>

definition role_hit :: "string \<Rightarrow> string \<Rightarrow> bool" where
  "role_hit lowerLine role \<longleftrightarrow>
     str_includes lowerLine (role_attr role) \<or> str_includes lowerLine (role_word role)"

text \<open>The inner loop over the roles: push the trimmed line at the first hit and break.\<close>

fun scan_roles :: "string \<Rightarrow> string \<Rightarrow> string list \<Rightarrow> string list \<Rightarrow> string list" where
  "scan_roles line lowerLine [] overlayElements = overlayElements"
| "scan_roles line lowerLine (role # roles) overlayElements =
     (if role_hit lowerLine role then overlayElements @ [trim line]
      else scan_roles line lowerLine roles overlayElements)"

definition close_hit :: "string \<Rightarrow> string \<Rightarrow> bool" where
  "close_hit lowerLine closeText \<longleftrightarrow>
     str_includes lowerLine closeText \<and>
     (str_includes lowerLine ''button'' \<or> str_includes lowerLine ''link'')"

text \<open>The inner loop over the close-button phrases, for a line that has a uid.\<close>

fun scan_close ::
  "string \<Rightarrow> string \<Rightarrow> string \<Rightarrow> string list \<Rightarrow> (string \<times> string) list \<Rightarrow> (string \<times> string) list"
where
  "scan_close uid line lowerLine [] closeButtons = closeButtons"
| "scan_close uid line lowerLine (closeText # rest) closeButtons =
     (if close_hit lowerLine closeText then closeButtons @ [(uid, trim line)]
      else scan_close uid line lowerLine rest closeButtons)"

text \<open>One pass of the loop over the lines; the state is \<open>(overlayElements, closeButtons)\<close>.\<close>

definition scan_line ::
  "string list \<times> (string \<times> string) list \<Rightarrow> string \<Rightarrow> string list \<times> (string \<times> string) list"
where
  "scan_line acc line =
     (let lowerLine = toLowerCase line;
          els1 = scan_roles line lowerLine overlayRoles (fst acc);
          els2 = (if str_includes lowerLine aria_modal then els1 @ [trim line] else els1);
          btns = (case uid_match line of
                    None \<Rightarrow> snd acc
                  | Some uid \<Rightarrow> scan_close uid line lowerLine closeButtonPatterns (snd acc))
      in (els2, btns))"

definition scan_lines :: "string \<Rightarrow> string list \<times> (string \<times> string) list" where
  "scan_lines snapshot = foldl scan_line ([], []) (split_str newline snapshot)"

record overlay_report =
  hasOverlay :: bool
  overlayInfo :: string
  suggestedAction :: string

definition detectBlockingOverlays :: "string \<Rightarrow> overlay_report" where
  "detectBlockingOverlays snapshot =
     (let overlayElements = fst (scan_lines snapshot);
          closeButtons = snd (scan_lines snapshot)
      in \<lparr> hasOverlay = (length overlayElements > 0),
           overlayInfo =
             (if length overlayElements > 0
              then ''Detected overlay elements:'' @ newline @ join newline (take 3 overlayElements)
              else []),
           suggestedAction =
             (if length closeButtons > 0
              then ''Found potential close buttons: '' @
                   join '', '' (map (\<lambda>b. ''uid='' @ fst b) closeButtons)
              else []) \<rparr>)"


section \<open>Normalising a tool response: \<open>processToolResponse\<close>\<close>

text \<open>
  One element of the \<open>content\<close> array of a protocol-client response. A text item with a
  missing text is a text item with the empty text: the source tests \<open>item.text\<close> for
  truthiness only.
\<close>

datatype content_item =
    TextItem string
  | ResourceItem string
  | OtherItem

definition snapshot_marker :: string where
  "snapshot_marker = ''## Latest page snapshot''"

text \<open>The result \<open>{ text, snapshot }\<close>; the field names carry a prefix here.\<close>

record processed =
  res_text :: string
  res_snapshot :: string

text \<open>The body of the loop over the items; the state is \<open>(textOutput, foundSnapshot)\<close>.\<close>

fun process_item :: "string \<times> string \<Rightarrow> content_item \<Rightarrow> string \<times> string" where
  "process_item (textOutput, foundSnapshot) (TextItem t) =
     (if t = [] then (textOutput, foundSnapshot)
      else if str_includes t snapshot_marker then
        (let parts = split_str snapshot_marker t;
             p0 = (case parts of [] \<Rightarrow> [] | p # _ \<Rightarrow> p);
             textOutput' = (if trim p0 \<noteq> [] then textOutput @ trim p0 @ newline else textOutput);
             foundSnapshot' =
               (case parts of
                  _ # p1 # _ \<Rightarrow> if p1 \<noteq> [] then trim p1 else foundSnapshot
                | _ \<Rightarrow> foundSnapshot)
         in (textOutput', foundSnapshot'))
      else if str_includes t ''uid='' then (textOutput, foundSnapshot @ t)
      else (textOutput @ t, foundSnapshot))"
| "process_item (textOutput, foundSnapshot) (ResourceItem uri) =
     (textOutput @ ''[Resource: '' @ uri @ '']'' @ newline, foundSnapshot)"
| "process_item (textOutput, foundSnapshot) OtherItem = (textOutput, foundSnapshot)"

definition processToolResponse :: "content_item list \<Rightarrow> processed" where
  "processToolResponse responseContent =
     (let r = foldl process_item ([], []) responseContent
      in \<lparr> res_text = trim (fst r), res_snapshot = trim (snd r) \<rparr>)"


section \<open>Session connection manager: \<open>BrowserManager\<close>\<close>

text \<open>
  The collaborators of the manager (the free-port allocator, the browser launcher, the
  protocol-client manager of the configuration) are a record of the world: what has been
  launched and registered so far, and how the next external call will answer. A launched
  browser is an index into \<open>browsers\<close>; its flag is what \<open>isConnected()\<close> reports. A
  protocol client is named \<open>chrome-devtools-<port>\<close>, so the registry is keyed by the port.
\<close>

datatype client_status = Disconnected | Connecting | Connected

record world =
  free_port :: "string + nat"
  chromium_error :: "string option"
  launch_error :: "string option"
  page_error :: "string option"
  browsers :: "(nat \<times> bool) list"
  has_mcp_manager :: bool
  registry :: "nat \<rightharpoonup> client_status"
  registrations :: "nat list"
  discovered :: "client_status option"
  connect_error :: "string option"

record browser_manager =
  mcpClient :: "nat option"
  browser :: "nat option"
  page :: "nat option"
  remoteDebuggingPort :: "nat option"

text \<open>The outcome of a method: a thrown message or a value, with the two states after it.\<close>

type_synonym 'a outcome = "(string + 'a) \<times> browser_manager \<times> world"

text \<open>\<^verbatim>\<open>!this.browser || !this.browser.isConnected()\<close>, negated.\<close>

definition browser_connected :: "browser_manager \<Rightarrow> world \<Rightarrow> bool" where
  "browser_connected bm w =
     (case browser bm of
        None \<Rightarrow> False
      | Some b \<Rightarrow> b < length (browsers w) \<and> snd (browsers w ! b))"

text \<open>\<^verbatim>\<open>this.mcpClient && this.mcpClient.getStatus() === 'connected'\<close>\<close>

definition client_connected :: "browser_manager \<Rightarrow> world \<Rightarrow> bool" where
  "client_connected bm w =
     (case mcpClient bm of
        None \<Rightarrow> False
      | Some c \<Rightarrow> registry w c = Some Connected)"

text \<open>
  \<open>launchBrowser\<close>: resolve the browser engine (three import paths, the last one installs
  it), launch with the remote debugging port, open a context and a page.
\<close>

definition launchBrowser :: "nat \<Rightarrow> browser_manager \<Rightarrow> world \<Rightarrow> unit outcome" where
  "launchBrowser port bm w =
     (case chromium_error w of
        Some e \<Rightarrow> (Inl e, bm, w)
      | None \<Rightarrow>
          (case launch_error w of
             Some e \<Rightarrow> (Inl e, bm, w)
           | None \<Rightarrow>
               (let b = length (browsers w);
                    w' = w\<lparr>browsers := browsers w @ [(port, True)]\<rparr>;
                    bm' = bm\<lparr>browser := Some b\<rparr>
                in case page_error w of
                     Some e \<Rightarrow> (Inl e, bm', w')
                   | None \<Rightarrow> (Inr (), bm'\<lparr>page := Some b\<rparr>, w'))))"

text \<open>
  \<open>connectMcp\<close>: look the client up by its name, register the server when the manager does
  not know it, connect it when it is not connected, and keep it.
\<close>

definition connectMcp :: "nat \<Rightarrow> browser_manager \<Rightarrow> world \<Rightarrow> unit outcome" where
  "connectMcp port bm w =
     (if \<not> has_mcp_manager w then (Inl ''MCP Client Manager not available in config'', bm, w)
      else
        (let w1 = (case registry w port of
                     Some st \<Rightarrow> w
                   | None \<Rightarrow>
                       w\<lparr>registrations := registrations w @ [port],
                         registry := (case discovered w of
                                        None \<Rightarrow> registry w
                                      | Some st \<Rightarrow> (registry w)(port \<mapsto> st))\<rparr>)
         in case registry w1 port of
              None \<Rightarrow> (Inl ''Failed to initialize chrome-devtools MCP client'', bm, w1)
            | Some st \<Rightarrow>
                (if st \<noteq> Connected then
                   (case connect_error w1 of
                      Some e \<Rightarrow> (Inl e, bm, w1)
                    | None \<Rightarrow>
                        (Inr (), bm\<lparr>mcpClient := Some port\<rparr>,
                         w1\<lparr>registry := (registry w1)(port \<mapsto> Connected)\<rparr>))
                 else (Inr (), bm\<lparr>mcpClient := Some port\<rparr>, w1))))"

definition ensureBrowserLaunched :: "browser_manager \<Rightarrow> world \<Rightarrow> unit outcome" where
  "ensureBrowserLaunched bm w =
     (case (case remoteDebuggingPort bm of
              None \<Rightarrow> free_port w
            | Some p \<Rightarrow> if p = 0 then free_port w else Inr p) of
        Inl e \<Rightarrow> (Inl e, bm, w)
      | Inr port \<Rightarrow>
          (let bm1 = bm\<lparr>remoteDebuggingPort := Some port\<rparr>;
               launched = (if \<not> browser_connected bm1 w then launchBrowser port bm1 w
                           else (Inr (), bm1, w))
           in case launched of
                (Inl e, bm2, w2) \<Rightarrow> (Inl e, bm2, w2)
              | (Inr u, bm2, w2) \<Rightarrow>
                  (if \<not> client_connected bm2 w2 then connectMcp port bm2 w2
                   else (Inr (), bm2, w2))))"

definition ensureConnection :: "browser_manager \<Rightarrow> world \<Rightarrow> unit outcome" where
  "ensureConnection bm w = ensureBrowserLaunched bm w"

definition getMcpClient :: "browser_manager \<Rightarrow> world \<Rightarrow> nat outcome" where
  "getMcpClient bm w =
     (case (if client_connected bm w then mcpClient bm else None) of
        Some c \<Rightarrow> (Inr c, bm, w)
      | None \<Rightarrow>
          (case ensureConnection bm w of
             (Inl e, bm', w') \<Rightarrow> (Inl e, bm', w')
           | (Inr u, bm', w') \<Rightarrow>
               (case mcpClient bm' of
                  None \<Rightarrow> (Inl ''Failed to initialize chrome-devtools MCP client'', bm', w')
                | Some c \<Rightarrow> (Inr c, bm', w'))))"

text \<open>A manager that has done nothing yet, and a world in which every external call succeeds.\<close>

definition new_manager :: browser_manager where
  "new_manager = \<lparr> mcpClient = None, browser = None, page = None, remoteDebuggingPort = None \<rparr>"

definition fresh_world :: world where
  "fresh_world =
     \<lparr> free_port = Inr 9222, chromium_error = None, launch_error = None, page_error = None,
       browsers = [], has_mcp_manager = True, registry = Map.empty, registrations = [],
       discovered = Some Disconnected, connect_error = None \<rparr>"


section \<open>What the two loops share: calls, parts, the environment\<close>

text \<open>
  A function call of the model: the name may be missing, and so may the argument map. The
  values of the map are the strings the source casts them to.
\<close>

type_synonym args = "(string \<times> string) list"

record function_call =
  fc_name :: "string option"
  fc_args :: "args option"

text \<open>\<^verbatim>\<open>ToolResult\<close> of the browser tools; \<open>{}\<close> is the record of three \<open>None\<close>.\<close>

record tool_result =
  tr_output :: "string option"
  tr_error :: "string option"
  tr_url :: "string option"

text \<open>
  The value \<open>functionResponse\<close> of the orchestrator: undefined, a string, or the object
  \<open>{ output }\<close> that the visual delegate returns.
\<close>

datatype response_value = Undefined | Str string | Obj string

datatype part =
    TextPart string
  | InlineData string
  | FunctionResponse string response_value
  | VisualResponse "string option" tool_result

text \<open>A part of a response of the visual model: an optional text, an optional call.\<close>

record vpart =
  vp_text :: "string option"
  vp_call :: "function_call option"

datatype content = UserContent "part list" | ModelContent "vpart list"

text \<open>
  An event of the response stream: a chunk with its function calls, an event of another
  type, or the point where the stream (or the call that opens it) throws. The text of a
  chunk is only collected into \<open>_textResponse\<close>, which nothing reads.
\<close>

datatype stream_event = Chunk "function_call list" | NotChunk | Throws string

text \<open>
  What a run does to the outside, in order. A model call of the orchestrator and the
  start of a tool execution carry the time at which they happen. The lines written to
  the optional sink \<open>printOutput\<close>, to the debug log and to the session log are left out,
  except for the notices that an event stands for.
\<close>

datatype event =
    ModelCall nat "part list"
  | Cancelled
  | UnnamedCall
  | Executing nat string args
  | McpCall string args
  | BrowserToolCall string args
  | ProtocolWarning
  | EmptyStreamWarning
  | VisualModelCall "content list"
  | VisualExecuting "string option"

text \<open>
  The environment of a run. Time is a counter of the suspension points passed so far; an
  external call is asked with the time at which it is made. The cancellation signal is set
  from \<open>abort_at\<close> on and stays set, as an \<open>AbortSignal\<close> does. For the calls that can throw,
  \<open>Inl\<close> (or \<open>Some\<close>, where there is no value) is the message of the error. \<open>stringify\<close> is
  \<open>JSON.stringify\<close> on a tool result.
\<close>

record env =
  abort_at :: "nat option"
  ensure_connection :: "string option"
  mcp_client :: "nat \<Rightarrow> string option"
  call_tool :: "nat \<Rightarrow> string \<Rightarrow> args \<Rightarrow> string + content_item list"
  browser_tool :: "nat \<Rightarrow> string \<Rightarrow> args \<Rightarrow> string + tool_result"
  capture_screenshot :: "nat \<Rightarrow> string"
  send_message_stream :: "nat \<Rightarrow> part list \<Rightarrow> stream_event list"
  generate_content :: "nat \<Rightarrow> content list \<Rightarrow> string + vpart list option"
  stringify :: "tool_result \<Rightarrow> string"

text \<open>\<^verbatim>\<open>signal.aborted\<close>, read at time \<open>t\<close>.\<close>

definition aborted :: "env \<Rightarrow> nat \<Rightarrow> bool" where
  "aborted e t = (case abort_at e of None \<Rightarrow> False | Some a \<Rightarrow> a \<le> t)"

text \<open>\<^verbatim>\<open>a || b\<close> on strings that may be undefined: the first one that is not empty.\<close>

definition or_else :: "string option \<Rightarrow> string \<Rightarrow> string" where
  "or_else a b = (case a of None \<Rightarrow> b | Some s \<Rightarrow> if s = [] then b else s)"

text \<open>A template literal prints a missing name as \<open>undefined\<close>.\<close>

definition name_str :: "string option \<Rightarrow> string" where
  "name_str n = (case n of None \<Rightarrow> ''undefined'' | Some s \<Rightarrow> s)"

text \<open>The time and the events of a run, threaded through both loops.\<close>

record io =
  clock :: nat
  trace :: "event list"

definition emit :: "event \<Rightarrow> io \<Rightarrow> io" where
  "emit ev s = s\<lparr>trace := trace s @ [ev]\<rparr>"

definition tick :: "io \<Rightarrow> io" where
  "tick s = s\<lparr>clock := Suc (clock s)\<rparr>"

text \<open>
  A call of a \<open>BrowserTools\<close> method, and a call of a tool of the protocol client, each a
  suspension point.
\<close>

definition browser_call :: "env \<Rightarrow> string \<Rightarrow> args \<Rightarrow> io \<Rightarrow> (string + tool_result) \<times> io" where
  "browser_call e method a s =
     (browser_tool e (clock s) method a, tick (emit (BrowserToolCall method a) s))"

definition client_call ::
  "env \<Rightarrow> string \<Rightarrow> args \<Rightarrow> io \<Rightarrow> (string + content_item list) \<times> io"
where
  "client_call e operation a s =
     (call_tool e (clock s) operation a, tick (emit (McpCall operation a) s))"

text \<open>
  The block that both exits of the visual loop run to make the protocol client drop its
  cached snapshot; whatever is thrown in it is ignored.
\<close>

definition invalidate_cache :: "env \<Rightarrow> io \<Rightarrow> io" where
  "invalidate_cache e s =
     (case mcp_client e (clock s) of
        Some msg \<Rightarrow> tick s
      | None \<Rightarrow>
          snd (client_call e ''evaluate_script''
                 [(''function'', ''() => { return true; }'')] (tick s)))"


section \<open>Visual delegate loop: \<open>runVisualDelegate\<close>\<close>

definition VISUAL_MAX_STEPS :: nat where
  "VISUAL_MAX_STEPS = 5"

text \<open>
  Reading \<open>call.args!['x']\<close> when the call has no arguments throws a \<open>TypeError\<close>; the message
  is the one of the engine.
\<close>

definition undefined_args_error :: "string \<Rightarrow> string" where
  "undefined_args_error key =
     ''Cannot read properties of undefined (reading '' @ [CHR 0x27] @ key @ [CHR 0x27] @ '')''"

text \<open>The \<open>try\<close> block around the \<open>switch\<close> over the name of a visual call.\<close>

definition visual_switch :: "env \<Rightarrow> function_call \<Rightarrow> io \<Rightarrow> (string + tool_result) \<times> io" where
  "visual_switch e call s =
     (let with_args = (\<lambda>key method.
            case fc_args call of
              None \<Rightarrow> (Inl (undefined_args_error key), s)
            | Some a \<Rightarrow> browser_call e method a s)
      in if fc_name call = Some ''click_at'' then with_args ''x'' ''clickAt''
         else if fc_name call = Some ''type_text_at'' then with_args ''x'' ''typeTextAt''
         else if fc_name call = Some ''drag_and_drop'' then with_args ''x'' ''dragAndDrop''
         else if fc_name call = Some ''press_key'' then with_args ''key'' ''pressKey''
         else if fc_name call = Some ''scroll_document'' then with_args ''direction'' ''scrollDocument''
         else (Inr \<lparr> tr_output = None,
                    tr_error = Some (''Unknown visual tool: '' @ name_str (fc_name call)),
                    tr_url = None \<rparr>, s))"

text \<open>The \<open>catch\<close>: the message of the error becomes the \<open>error\<close> field of the result.\<close>

definition visual_result :: "string + tool_result \<Rightarrow> tool_result" where
  "visual_result r =
     (case r of
        Inl message \<Rightarrow> \<lparr> tr_output = None, tr_error = Some message, tr_url = None \<rparr>
      | Inr funcResult \<Rightarrow> funcResult)"

definition history_entry :: "env \<Rightarrow> function_call \<Rightarrow> tool_result \<Rightarrow> string" where
  "history_entry e call funcResult =
     ''- '' @ name_str (fc_name call) @ ''('' @
     join '', '' (map (\<lambda>kv. fst kv @ ''='' @ snd kv)
                     (case fc_args call of None \<Rightarrow> [] | Some a \<Rightarrow> a)) @
     '') => '' @ stringify e funcResult"

text \<open>
  The loop over the function calls of one visual turn; the state is the responses and the
  action history so far.
\<close>

fun run_visual_calls ::
  "env \<Rightarrow> function_call list \<Rightarrow> part list \<times> string list \<times> io \<Rightarrow> part list \<times> string list \<times> io"
where
  "run_visual_calls e [] st = st"
| "run_visual_calls e (call # calls) (functionResponses, actionHistory, s) =
     (case visual_switch e call (emit (VisualExecuting (fc_name call)) s) of
        (r, s') \<Rightarrow>
          run_visual_calls e calls
            (functionResponses @ [VisualResponse (fc_name call) (visual_result r)],
             actionHistory @ [history_entry e call (visual_result r)],
             s'))"

text \<open>\<^verbatim>\<open>response.parts?.filter((p) => 'functionCall' in p)\<close>, as the calls themselves.\<close>

definition calls_of :: "vpart list \<Rightarrow> function_call list" where
  "calls_of parts = concat (map (\<lambda>p. case vp_call p of None \<Rightarrow> [] | Some c \<Rightarrow> [c]) parts)"

definition completed_output :: "vpart list \<Rightarrow> string list \<Rightarrow> string" where
  "completed_output parts actionHistory =
     ''Visual Agent Completed.'' @ newline @ ''Final Message: '' @
     or_else (Some (concat (map (\<lambda>p. case vp_text p of None \<Rightarrow> [] | Some t \<Rightarrow> t) parts))) ''Done'' @
     newline @ ''Actions Taken:'' @ newline @ join newline actionHistory"

definition max_steps_output :: "string list \<Rightarrow> string" where
  "max_steps_output actionHistory =
     ''Visual Agent reached max steps WITHOUT completing the task. '' @
     ''The task may be incomplete or requires more steps.'' @ newline @
     ''Actions Taken:'' @ newline @ join newline actionHistory"

text \<open>
  How the body of the \<open>for\<close> loop ends: by \<open>return\<close> (or by an error that leaves the method),
  by \<open>break\<close>, or at its last line, with the new contents and action history.
\<close>

datatype vflow = VReturn "string + string" | VBreak | VContinue "content list" "string list"

text \<open>The body of the \<open>for\<close> loop.\<close>

definition visual_iteration ::
  "env \<Rightarrow> content list \<Rightarrow> string list \<Rightarrow> io \<Rightarrow> vflow \<times> io"
where
  "visual_iteration e contents actionHistory s =
     (if aborted e (clock s) then (VReturn (Inr ''Visual agent cancelled by user.''), s)
      else
        (let s1 = tick (emit (VisualModelCall contents) s)
         in case generate_content e (clock s) contents of
              Inl msg \<Rightarrow> (VReturn (Inl msg), s1)
            | Inr None \<Rightarrow> (VBreak, s1)
            | Inr (Some parts) \<Rightarrow>
                (if calls_of parts = [] then
                   (VReturn (Inr (completed_output parts actionHistory)), invalidate_cache e s1)
                 else
                   (case run_visual_calls e (calls_of parts) ([], actionHistory, s1) of
                      (functionResponses, actionHistory', s2) \<Rightarrow>
                        (let finalScreenshot = capture_screenshot e (clock s2);
                             responses = (if finalScreenshot \<noteq> []
                                          then functionResponses @ [InlineData finalScreenshot]
                                          else functionResponses)
                         in (VContinue (contents @ [ModelContent parts, UserContent responses])
                               actionHistory',
                             tick s2))))))"

text \<open>The code after the loop.\<close>

definition exhausted :: "env \<Rightarrow> string list \<Rightarrow> io \<Rightarrow> (string + string) \<times> io" where
  "exhausted e actionHistory s = (Inr (max_steps_output actionHistory), invalidate_cache e s)"

text \<open>
  The \<open>for\<close> loop from step \<open>i\<close> on. The result is the returned output, or the message of the
  error that \<open>generateContent\<close> threw.
\<close>

function visual_loop ::
  "env \<Rightarrow> nat \<Rightarrow> content list \<Rightarrow> string list \<Rightarrow> io \<Rightarrow> (string + string) \<times> io"
where
  "visual_loop e i contents actionHistory s =
     (if i < VISUAL_MAX_STEPS then
        (case visual_iteration e contents actionHistory s of
           (VReturn r, s') \<Rightarrow> (r, s')
         | (VBreak, s') \<Rightarrow> exhausted e actionHistory s'
         | (VContinue contents' actionHistory', s') \<Rightarrow>
             visual_loop e (Suc i) contents' actionHistory' s')
      else exhausted e actionHistory s)"
  by pat_completeness auto
termination
  by (relation "measure (\<lambda>(e, i, contents, actionHistory, s). VISUAL_MAX_STEPS - i)") auto

declare visual_loop.simps [simp del]

definition visual_system_instruction :: "string \<Rightarrow> string" where
  "visual_system_instruction instruction =
     ''You are a Visual Delegate Agent. You have been delegated a specific task: '' @
     [CHR 0x22] @ instruction @ [CHR 0x22] @ ''.'' @ newline @
     ''You have access to valid screenshot of the current state.'' @ newline @
     ''You MUST perform the necessary actions (click_at, type_text_at, drag_and_drop, '' @
     ''scroll_document, press_key) to fulfill the instruction.'' @ newline @
     ''If the element is not visible, use scroll_document to find it.'' @ newline @
     ''Return a concise summary of your actions when done.'' @ newline"

definition runVisualDelegate :: "env \<Rightarrow> string \<Rightarrow> string \<Rightarrow> io \<Rightarrow> (string + string) \<times> io" where
  "runVisualDelegate e instruction initialScreenshot s =
     (let initialParts =
            (if initialScreenshot \<noteq> []
             then [TextPart (visual_system_instruction instruction), InlineData initialScreenshot]
             else [TextPart (visual_system_instruction instruction)])
      in visual_loop e 0 [UserContent initialParts] [] s)"


section \<open>Orchestrator loop: \<open>runTask\<close>\<close>

definition MAX_ITERATIONS :: nat where
  "MAX_ITERATIONS = 20"

text \<open>The variables of \<open>runTask\<close> that outlive an iteration, with the time and the events.\<close>

record loop_state =
  ios :: io
  currentInputParts :: "part list"
  taskCompleted :: bool
  taskSummary :: string

text \<open>
  The \<open>for await\<close> loop over the stream. Waiting for the next event is a suspension point;
  the stream may throw there, and the signal is read first thing in the body.
\<close>

fun consume_stream ::
  "env \<Rightarrow> stream_event list \<Rightarrow> function_call list \<Rightarrow> io \<Rightarrow> (string + function_call list) \<times> io"
where
  "consume_stream e [] functionCalls s = (Inr functionCalls, tick s)"
| "consume_stream e (Throws msg # events) functionCalls s = (Inl msg, tick s)"
| "consume_stream e (Chunk calls # events) functionCalls s =
     (if aborted e (clock (tick s)) then (Inr functionCalls, tick s)
      else consume_stream e events (functionCalls @ calls) (tick s))"
| "consume_stream e (NotChunk # events) functionCalls s =
     (if aborted e (clock (tick s)) then (Inr functionCalls, tick s)
      else consume_stream e events functionCalls (tick s))"

text \<open>The cases of the \<open>switch\<close> that forward the arguments to the protocol client.\<close>

definition mcp_operation :: "string \<Rightarrow> string option" where
  "mcp_operation fnName =
     (if fnName = ''navigate'' then Some ''navigate_page''
      else if fnName \<in> set [''click'', ''hover'', ''fill'', ''fill_form'', ''upload_file'',
                             ''get_element_text'', ''wait_for'', ''handle_dialog'',
                             ''evaluate_script'', ''press_key'', ''drag'', ''close_page'']
      then Some fnName
      else None)"

text \<open>The names whose raw content goes through \<open>processToolResponse\<close>.\<close>

definition semantic_tools :: "string list" where
  "semantic_tools =
     [''navigate'', ''click'', ''hover'', ''fill'', ''fill_form'', ''get_element_text'',
      ''wait_for'', ''handle_dialog'', ''press_key'', ''drag'', ''close_page'']"

definition warning_sign :: string where
  "warning_sign = [CHR 0xE2, CHR 0x9A, CHR 0xA0, CHR 0xEF, CHR 0xB8, CHR 0x8F]"

definition overlay_hint :: string where
  "overlay_hint =
     newline @ newline @ warning_sign @
     '' This action may have been blocked by an overlay, popup, or tooltip. '' @
     ''Look for close/dismiss buttons in the accessibility tree and click them first.''"

definition blocked_by_overlay :: "string \<Rightarrow> bool" where
  "blocked_by_overlay functionResponse \<longleftrightarrow>
     str_includes functionResponse ''not interactable'' \<or>
     str_includes functionResponse ''obscured'' \<or>
     str_includes functionResponse ''intercept'' \<or>
     str_includes functionResponse ''blocked''"

text \<open>\<^verbatim>\<open>res.output || res.error || ''\<close>\<close>

definition result_text :: "tool_result \<Rightarrow> response_value" where
  "result_text res = Str (or_else (tr_output res) (or_else (tr_error res) []))"

definition browser_case ::
  "env \<Rightarrow> string \<Rightarrow> args \<Rightarrow> loop_state \<Rightarrow>
     (string + response_value \<times> content_item list) \<times> loop_state"
where
  "browser_case e method fnArgs s =
     (case browser_call e method fnArgs (ios s) of
        (Inl msg, s') \<Rightarrow> (Inl msg, s\<lparr>ios := s'\<rparr>)
      | (Inr res, s') \<Rightarrow> (Inr (result_text res, []), s\<lparr>ios := s'\<rparr>))"

text \<open>
  The \<open>switch\<close> over the name. The value is \<open>(functionResponse, rawContent)\<close> after it, or
  the message of what was thrown in it.
\<close>

definition switch_call ::
  "env \<Rightarrow> string \<Rightarrow> args \<Rightarrow> loop_state \<Rightarrow>
     (string + response_value \<times> content_item list) \<times> loop_state"
where
  "switch_call e fnName fnArgs s =
     (case mcp_operation fnName of
        Some operation \<Rightarrow>
          (case client_call e operation fnArgs (ios s) of
             (Inl msg, s') \<Rightarrow> (Inl msg, s\<lparr>ios := s'\<rparr>)
           | (Inr content, s') \<Rightarrow> (Inr (Undefined, content), s\<lparr>ios := s'\<rparr>))
      | None \<Rightarrow>
          if fnName = ''take_snapshot'' then browser_case e ''takeSnapshot'' fnArgs s
          else if fnName = ''complete_task'' then
            (let summary = or_else (map_of fnArgs ''summary'') ''Task completed''
             in (Inr (Str summary, []), s\<lparr>taskCompleted := True, taskSummary := summary\<rparr>))
          else if fnName = ''delegate_to_visual_agent'' then
            (let screen = capture_screenshot e (clock (ios s))
             in case runVisualDelegate e (or_else (map_of fnArgs ''instruction'') []) screen
                       (tick (ios s)) of
                  (Inl msg, s') \<Rightarrow> (Inl msg, s\<lparr>ios := s'\<rparr>)
                | (Inr visualRes, s') \<Rightarrow> (Inr (Obj visualRes, []), s\<lparr>ios := s'\<rparr>))
          else if fnName = ''scroll_document'' then browser_case e ''scrollDocument'' fnArgs s
          else if fnName = ''pagedown'' then browser_case e ''pagedown'' fnArgs s
          else if fnName = ''pageup'' then browser_case e ''pageup'' fnArgs s
          else if fnName = ''open_web_browser'' then browser_case e ''openWebBrowser'' fnArgs s
          else (Inr (Str (''Error: Tool '' @ fnName @
                          '' not recognized or supported directly.''), []), s))"

text \<open>\<^verbatim>\<open>p.text || ''\<close> on an item of the raw content.\<close>

definition item_text :: "content_item \<Rightarrow> string" where
  "item_text item = (case item of TextItem t \<Rightarrow> t | _ \<Rightarrow> [])"

definition falsy :: "response_value \<Rightarrow> bool" where
  "falsy v = (case v of Undefined \<Rightarrow> True | Str t \<Rightarrow> t = [] | Obj out \<Rightarrow> False)"

text \<open>The post-processing after the \<open>switch\<close>, still inside the \<open>try\<close>.\<close>

definition post_process :: "string \<Rightarrow> response_value \<Rightarrow> content_item list \<Rightarrow> response_value" where
  "post_process fnName functionResponse rawContent =
     (if fnName \<in> set semantic_tools then Str (res_text (processToolResponse rawContent))
      else if falsy functionResponse \<and> rawContent \<noteq> []
      then Str (join newline (map item_text rawContent))
      else functionResponse)"

text \<open>The \<open>try\<close> block of one call: get the client, dispatch, post-process.\<close>

definition try_body ::
  "env \<Rightarrow> string \<Rightarrow> args \<Rightarrow> loop_state \<Rightarrow> (string + response_value) \<times> loop_state"
where
  "try_body e fnName fnArgs s =
     (case mcp_client e (clock (ios s)) of
        Some msg \<Rightarrow> (Inl msg, s\<lparr>ios := tick (ios s)\<rparr>)
      | None \<Rightarrow>
          (case switch_call e fnName fnArgs (s\<lparr>ios := tick (ios s)\<rparr>) of
             (Inl msg, s') \<Rightarrow> (Inl msg, s')
           | (Inr (functionResponse, rawContent), s') \<Rightarrow>
               (Inr (post_process fnName functionResponse rawContent), s')))"

text \<open>The \<open>catch\<close> after it, and the hint appended to a string that tells of a blocked action.\<close>

definition caught :: "string \<Rightarrow> string + response_value \<Rightarrow> response_value" where
  "caught fnName r =
     (case r of
        Inl msg \<Rightarrow> Str (''Error executing '' @ fnName @ '': '' @ msg)
      | Inr functionResponse \<Rightarrow> functionResponse)"

definition with_hint :: "response_value \<Rightarrow> response_value" where
  "with_hint functionResponse =
     (case functionResponse of
        Str t \<Rightarrow> if blocked_by_overlay t then Str (t @ overlay_hint) else Str t
      | v \<Rightarrow> v)"

text \<open>The body of the loop over the calls, for a call that has a name.\<close>

definition execute_call :: "env \<Rightarrow> string \<Rightarrow> args \<Rightarrow> loop_state \<Rightarrow> loop_state" where
  "execute_call e fnName fnArgs s =
     (case try_body e fnName fnArgs
             (s\<lparr>ios := emit (Executing (clock (ios s)) fnName fnArgs) (ios s)\<rparr>) of
        (r, s') \<Rightarrow>
          s'\<lparr>currentInputParts :=
               currentInputParts s' @ [FunctionResponse fnName (with_hint (caught fnName r))]\<rparr>)"

text \<open>\<^verbatim>\<open>!fnName\<close>: the name is missing or empty.\<close>

definition unnamed :: "function_call \<Rightarrow> bool" where
  "unnamed call \<longleftrightarrow> fc_name call = None \<or> fc_name call = Some []"

text \<open>The loop over the function calls of one turn.\<close>

fun run_calls :: "env \<Rightarrow> function_call list \<Rightarrow> loop_state \<Rightarrow> loop_state" where
  "run_calls e [] s = s"
| "run_calls e (call # calls) s =
     (if aborted e (clock (ios s)) then s\<lparr>ios := emit Cancelled (ios s)\<rparr>
      else if unnamed call then run_calls e calls (s\<lparr>ios := emit UnnamedCall (ios s)\<rparr>)
      else run_calls e calls
             (execute_call e (name_str (fc_name call))
                (case fc_args call of None \<Rightarrow> [] | Some a \<Rightarrow> a) s))"

definition empty_stream_text :: string where
  "empty_stream_text = ''Model stream ended with empty response text''"

definition reprompt :: string where
  "reprompt =
     ''You must call the complete_task tool to finish. If the task is done, call '' @
     ''complete_task with a summary. If you cannot complete the task, call complete_task '' @
     ''explaining why.''"

text \<open>How the body of the \<open>while\<close> loop ends: by \<open>return\<close>, by \<open>break\<close>, or at its last line.\<close>

datatype flow = Return string | Break | Continue

text \<open>
  The body of the \<open>while\<close> loop. In the \<open>catch\<close> of the model call the test for the
  empty-stream message only writes a warning to the debug log (the event
  \<open>EmptyStreamWarning\<close>); both branches go on to \<open>return msg\<close>.
\<close>

definition iteration :: "env \<Rightarrow> loop_state \<Rightarrow> flow \<times> loop_state" where
  "iteration e s =
     (if aborted e (clock (ios s)) then (Break, s\<lparr>ios := emit Cancelled (ios s)\<rparr>)
      else
        (let messageParts = currentInputParts s
         in case consume_stream e (send_message_stream e (clock (ios s)) messageParts) []
                   (emit (ModelCall (clock (ios s)) messageParts) (ios s)) of
              (Inl message, s') \<Rightarrow>
                (let msg = ''Error calling model: '' @ message
                 in if str_includes msg empty_stream_text
                    then (Return msg, s\<lparr>ios := emit EmptyStreamWarning s'\<rparr>)
                    else (Return msg, s\<lparr>ios := s'\<rparr>))
            | (Inr functionCalls, s') \<Rightarrow>
                (if aborted e (clock s') then (Break, s\<lparr>ios := emit Cancelled s'\<rparr>)
                 else if length functionCalls > 0 then
                   (let s'' = run_calls e functionCalls (s\<lparr>ios := s', currentInputParts := []\<rparr>)
                    in if taskCompleted s'' then (Break, s'') else (Continue, s''))
                 else
                   (Continue,
                    s\<lparr>ios := emit ProtocolWarning s',
                      currentInputParts := [TextPart reprompt]\<rparr>))))"

text \<open>The last line of \<open>runTask\<close>: \<^verbatim>\<open>return taskSummary || 'Task finished'\<close>.\<close>

definition finish :: "loop_state \<Rightarrow> string \<times> loop_state" where
  "finish s = (or_else (Some (taskSummary s)) ''Task finished'', s)"

function runLoop :: "env \<Rightarrow> nat \<Rightarrow> loop_state \<Rightarrow> string \<times> loop_state" where
  "runLoop e iterationCount s =
     (if iterationCount < MAX_ITERATIONS then
        (case iteration e s of
           (Return msg, s') \<Rightarrow> (msg, s')
         | (Break, s') \<Rightarrow> finish s'
         | (Continue, s') \<Rightarrow> runLoop e (Suc iterationCount) s')
      else finish s)"
  by pat_completeness auto
termination
  by (relation "measure (\<lambda>(e, iterationCount, s). MAX_ITERATIONS - iterationCount)") auto

declare runLoop.simps [simp del]

text \<open>
  The initial snapshot, taken inside a \<open>try\<close> whose \<open>catch\<close> only logs: the parts it adds to
  the first input.
\<close>

definition initial_snapshot_parts :: "env \<Rightarrow> io \<Rightarrow> part list \<times> io" where
  "initial_snapshot_parts e s =
     (case mcp_client e (clock s) of
        Some msg \<Rightarrow> ([], tick s)
      | None \<Rightarrow>
          (case client_call e ''take_snapshot'' [(''verbose'', ''false'')] (tick s) of
             (Inl msg, s') \<Rightarrow> ([], s')
           | (Inr snapContent, s') \<Rightarrow>
               (let initialSnapshot = concat (map item_text snapContent)
                in if initialSnapshot \<noteq> [] then
                     (let overlayCheck = detectBlockingOverlays initialSnapshot
                      in ((if hasOverlay overlayCheck
                           then [TextPart (warning_sign @ '' BLOCKING OVERLAY DETECTED: '' @
                                           overlayInfo overlayCheck @ newline @
                                           suggestedAction overlayCheck @ newline @
                                           ''Please dismiss this overlay before proceeding.'')]
                           else []) @
                          [TextPart (''<accessibility_tree>'' @ newline @ initialSnapshot @
                                     newline @ ''</accessibility_tree>'')],
                          s'))
                   else ([], s'))))"

text \<open>
  \<open>runTask\<close>: connect (the connection and the two updates of the border overlay are three
  suspension points), build the first input, run the loop.
\<close>

definition runTask :: "env \<Rightarrow> string \<Rightarrow> string \<times> loop_state" where
  "runTask e prompt =
     (case ensure_connection e of
        Some message \<Rightarrow>
          (''Error: Failed to connect to browser: '' @ message,
           \<lparr> ios = \<lparr> clock = 1, trace = [] \<rparr>, currentInputParts = [],
             taskCompleted = False, taskSummary = [] \<rparr>)
      | None \<Rightarrow>
          (case initial_snapshot_parts e \<lparr> clock = 3, trace = [] \<rparr> of
             (snapshotParts, s) \<Rightarrow>
               runLoop e 0
                 \<lparr> ios = s,
                   currentInputParts = TextPart (''Task: '' @ prompt) # snapshotParts,
                   taskCompleted = False, taskSummary = [] \<rparr>))"


section \<open>Reading a trace\<close>

text \<open>The names of the tool executions that were started, in order.\<close>

fun executed :: "event list \<Rightarrow> string list" where
  "executed [] = []"
| "executed (Executing t fnName fnArgs # evs) = fnName # executed evs"
| "executed (ev # evs) = executed evs"

text \<open>The inputs of the model calls of the orchestrator, in order.\<close>

fun model_inputs :: "event list \<Rightarrow> part list list" where
  "model_inputs [] = []"
| "model_inputs (ModelCall t parts # evs) = parts # model_inputs evs"
| "model_inputs (ev # evs) = model_inputs evs"

text \<open>The calls of the visual model and the visual tool executions, counted.\<close>

fun visual_model_calls :: "event list \<Rightarrow> nat" where
  "visual_model_calls [] = 0"
| "visual_model_calls (VisualModelCall contents # evs) = Suc (visual_model_calls evs)"
| "visual_model_calls (ev # evs) = visual_model_calls evs"

fun visual_executed :: "event list \<Rightarrow> string option list" where
  "visual_executed [] = []"
| "visual_executed (VisualExecuting n # evs) = n # visual_executed evs"
| "visual_executed (ev # evs) = visual_executed evs"

text \<open>An event that is neither a model call of the orchestrator nor the start of a tool.\<close>

fun quiet :: "event \<Rightarrow> bool" where
  "quiet (ModelCall t parts) = False"
| "quiet (Executing t fnName fnArgs) = False"
| "quiet ev = True"

text \<open>A model call or a tool start is timely when the signal is not set at its time.\<close>

fun timely :: "env \<Rightarrow> event \<Rightarrow> bool" where
  "timely e (ModelCall t parts) = (\<not> aborted e t)"
| "timely e (Executing t fnName fnArgs) = (\<not> aborted e t)"
| "timely e ev = True"

text \<open>The names of the calls that have one, in order.\<close>

definition names_of :: "function_call list \<Rightarrow> string list" where
  "names_of calls = map (\<lambda>c. name_str (fc_name c)) (filter (\<lambda>c. \<not> unnamed c) calls)"

text \<open>The names of the function-response parts of an input, in order.\<close>

fun response_names :: "part list \<Rightarrow> string list" where
  "response_names [] = []"
| "response_names (FunctionResponse fnName v # ps) = fnName # response_names ps"
| "response_names (p # ps) = response_names ps"

text \<open>The second state has the trace of the first one, and then events that satisfy \<open>P\<close>.\<close>

definition extends :: "(event \<Rightarrow> bool) \<Rightarrow> io \<Rightarrow> io \<Rightarrow> bool" where
  "extends P s s' \<longleftrightarrow> (\<exists>evs. trace s' = trace s @ evs \<and> list_all P evs)"

text \<open>The function calls that a stream delivers when it is read to its end.\<close>

fun stream_calls :: "stream_event list \<Rightarrow> function_call list" where
  "stream_calls [] = []"
| "stream_calls (Chunk calls # events) = calls @ stream_calls events"
| "stream_calls (ev # events) = stream_calls events"

fun throws_free :: "stream_event list \<Rightarrow> bool" where
  "throws_free [] = True"
| "throws_free (Throws msg # events) = False"
| "throws_free (ev # events) = throws_free events"

text \<open>\<^verbatim>\<open>(fnArgs['summary'] as string) || 'Task completed'\<close> for a call.\<close>

definition summary_of :: "function_call \<Rightarrow> string" where
  "summary_of call =
     or_else (map_of (case fc_args call of None \<Rightarrow> [] | Some a \<Rightarrow> a) ''summary'')
       ''Task completed''"

text \<open>An event that is a call of the protocol client or of a browser tool.\<close>

fun tool_event :: "event \<Rightarrow> bool" where
  "tool_event (McpCall operation a) = True"
| "tool_event (BrowserToolCall method a) = True"
| "tool_event ev = False"

section \<open>Sample inputs\<close>

text \<open>A snapshot with five lines, four of which carry an overlay marker.\<close>

definition four_dialogs :: string where
  "four_dialogs =
     ''uid=1 role='' @ [CHR 0x22] @ ''dialog'' @ [CHR 0x22] @ newline @
     ''uid=2 ROLE='' @ [CHR 0x22] @ ''Tooltip'' @ [CHR 0x22] @ newline @
     ''uid=3 heading'' @ newline @
     ''uid=4 aria-modal='' @ [CHR 0x22] @ ''true'' @ [CHR 0x22] @ newline @
     ''uid=5 alertdialog x''"


text \<open>
  An environment in which nothing fails and nobody cancels: the protocol client answers
  every tool with an empty content, the model streams nothing, the visual model gives no
  response.
\<close>

definition quiet_env :: env where
  "quiet_env =
     \<lparr> abort_at = None,
       ensure_connection = None,
       mcp_client = (\<lambda>t. None),
       call_tool = (\<lambda>t operation a. Inr []),
       browser_tool = (\<lambda>t method a. Inr \<lparr> tr_output = Some method, tr_error = None, tr_url = None \<rparr>),
       capture_screenshot = (\<lambda>t. ''png''),
       send_message_stream = (\<lambda>t parts. []),
       generate_content = (\<lambda>t contents. Inr None),
       stringify = (\<lambda>r. or_else (tr_output r) (or_else (tr_error r) ''{}'')) \<rparr>"

definition named_call :: "string \<Rightarrow> args \<Rightarrow> function_call" where
  "named_call n a = \<lparr> fc_name = Some n, fc_args = Some a \<rparr>"

text \<open>The first turn is recognised by the task prompt at the head of its input.\<close>

definition first_turn :: "part list \<Rightarrow> bool" where
  "first_turn parts = (case parts of TextPart t # rest \<Rightarrow> prefix ''Task: '' t | _ \<Rightarrow> False)"

text \<open>The scenario of the specification: navigate in the first turn, complete in the second.\<close>

definition navigate_env :: env where
  "navigate_env =
     quiet_env\<lparr> send_message_stream := (\<lambda>t parts.
       if first_turn parts
       then [Chunk [named_call ''navigate'' [(''url'', ''https://example.com'')]]]
       else [Chunk [named_call ''complete_task'' [(''summary'', ''Done'')]]]) \<rparr>"

text \<open>The state of the loop at its first turn, with an empty input.\<close>

definition start_state :: loop_state where
  "start_state =
     \<lparr> ios = \<lparr> clock = 3, trace = [] \<rparr>, currentInputParts = [],
       taskCompleted = False, taskSummary = [] \<rparr>"

text \<open>A call without a name, and three clicks.\<close>

definition nameless_call :: function_call where
  "nameless_call = \<lparr> fc_name = None, fc_args = Some [(''uid'', ''0'')] \<rparr>"

definition click :: "string \<Rightarrow> function_call" where
  "click uid = named_call ''click'' [(''uid'', uid)]"

text \<open>The model asks for three clicks in every turn; the signal is set at time 9.\<close>

definition cancel_env :: env where
  "cancel_env =
     quiet_env\<lparr> abort_at := Some 9,
                send_message_stream := (\<lambda>t parts. [Chunk [click ''1'', click ''2'', click ''3'']]) \<rparr>"

text \<open>Every tool of the protocol client and every browser tool throws.\<close>

definition failing_env :: env where
  "failing_env =
     quiet_env\<lparr> call_tool := (\<lambda>t operation a. Inl ''boom''),
                browser_tool := (\<lambda>t method a. Inl ''boom'') \<rparr>"

text \<open>The model call throws the error of an empty stream.\<close>

definition empty_stream_env :: env where
  "empty_stream_env =
     quiet_env\<lparr> send_message_stream := (\<lambda>t parts. [Throws empty_stream_text]) \<rparr>"

definition complete :: "string \<Rightarrow> function_call" where
  "complete summary = named_call ''complete_task'' [(''summary'', summary)]"

text \<open>The model completes the task and asks for a click in the same turn.\<close>

definition complete_then_click_env :: env where
  "complete_then_click_env =
     quiet_env\<lparr> send_message_stream := (\<lambda>t parts. [Chunk [complete ''Done'', click ''1'']]) \<rparr>"

text \<open>The visual model asks for one click in every turn.\<close>

definition visual_click_env :: env where
  "visual_click_env =
     quiet_env\<lparr> generate_content := (\<lambda>t contents.
       Inr (Some [\<lparr> vp_text = None,
                    vp_call = Some (named_call ''click_at'' [(''x'', ''500''), (''y'', ''500'')]) \<rparr>])) \<rparr>"

section \<open>Facts about the string primitives\<close>

lemma str_includes_iff: "str_includes s sub \<longleftrightarrow> (\<exists>p q. s = p @ sub @ q)"
proof (induction s)
  case Nil
  show ?case by auto
next
  case (Cons c cs)
  show ?case
  proof
    assume "str_includes (c # cs) sub"
    then consider "prefix sub (c # cs)" | "str_includes cs sub" by auto
    then show "\<exists>p q. c # cs = p @ sub @ q"
    proof cases
      case 1
      then obtain q where "c # cs = sub @ q" by (auto simp: prefix_def)
      then have "c # cs = [] @ sub @ q" by simp
      then show ?thesis by blast
    next
      case 2
      then obtain p q where "cs = p @ sub @ q" using Cons.IH by blast
      then have "c # cs = (c # p) @ sub @ q" by simp
      then show ?thesis by blast
    qed
  next
    assume "\<exists>p q. c # cs = p @ sub @ q"
    then obtain p q where pq: "c # cs = p @ sub @ q" by blast
    show "str_includes (c # cs) sub"
    proof (cases p)
      case Nil
      with pq have "prefix sub (c # cs)" by (simp add: prefix_def)
      then show ?thesis by simp
    next
      case (Cons x p')
      with pq have "cs = p' @ sub @ q" by simp
      then have "str_includes cs sub" using Cons.IH by blast
      then show ?thesis by simp
    qed
  qed
qed

lemma str_includes_map:
  assumes "str_includes s m"
  shows "str_includes (map f s) (map f m)"
proof -
  from assms obtain p q where "s = p @ m @ q" by (auto simp: str_includes_iff)
  then have "map f s = map f p @ map f m @ map f q" by simp
  then show ?thesis unfolding str_includes_iff by blast
qed

lemma str_includes_lower:
  assumes "str_includes line m" and "toLowerCase m = m"
  shows "str_includes (toLowerCase line) m"
  using str_includes_map [OF assms(1), of lower_char] assms(2)
  by (simp add: toLowerCase_def)

lemma lower_markers:
  "toLowerCase (role_attr ''dialog'') = role_attr ''dialog''"
  "toLowerCase (role_attr ''alertdialog'') = role_attr ''alertdialog''"
  "toLowerCase (role_attr ''tooltip'') = role_attr ''tooltip''"
  "toLowerCase aria_modal = aria_modal"
  by code_simp+

lemma scan_roles_eq:
  "scan_roles line low roles acc =
     (if \<exists>role \<in> set roles. role_hit low role then acc @ [trim line] else acc)"
  by (induction roles) auto

lemma fst_scan_line:
  "fst (scan_line acc line) =
     fst acc @ (if \<exists>role \<in> set overlayRoles. role_hit (toLowerCase line) role then [trim line] else [])
             @ (if str_includes (toLowerCase line) aria_modal then [trim line] else [])"
  by (simp add: scan_line_def Let_def scan_roles_eq)

lemma fst_foldl_scan_line:
  "fst (foldl scan_line acc lines) =
     fst acc @ concat (map (\<lambda>line.
        (if \<exists>role \<in> set overlayRoles. role_hit (toLowerCase line) role then [trim line] else [])
        @ (if str_includes (toLowerCase line) aria_modal then [trim line] else [])) lines)"
proof (induction lines arbitrary: acc)
  case Nil
  show ?case by simp
next
  case (Cons l ls)
  show ?case by (simp only: foldl_Cons Cons.IH fst_scan_line list.map concat.simps append_assoc)
qed

lemma split_str_nonempty: "split_str sep t \<noteq> []"
  by (induction sep t rule: split_str.induct) (auto split: list.splits)








lemma trim_Nil [simp]: "trim [] = []"
  by (simp add: trim_def)

lemma trim_ends:
  assumes "trim s \<noteq> []"
  shows "\<not> is_space (hd (trim s))" and "\<not> is_space (last (trim s))"
proof -
  define y where "y = dropWhile is_space s"
  define z where "z = dropWhile is_space (rev y)"
  have t: "trim s = rev z" by (simp add: trim_def y_def z_def)
  with assms have zne: "z \<noteq> []" by simp
  then have hz: "\<not> is_space (hd z)" unfolding z_def by (rule hd_dropWhile)
  then show "\<not> is_space (last (trim s))" using t zne by (simp add: last_rev)
  have yne: "y \<noteq> []" using zne z_def by auto
  then have hy: "\<not> is_space (hd y)" unfolding y_def by (rule hd_dropWhile)
  obtain w where "rev y = w @ z"
    unfolding z_def by (metis takeWhile_dropWhile_id)
  then have "last z = last (rev y)" using zne by simp
  then have "last z = hd y" using yne by (simp add: last_rev)
  then show "\<not> is_space (hd (trim s))" using t zne hy by (simp add: hd_rev)
qed

lemma trim_fixed:
  assumes "x \<noteq> []" and "\<not> is_space (hd x)" and "\<not> is_space (last x)"
  shows "trim x = x"
proof -
  have 1: "dropWhile is_space x = x" using assms(1,2) by (cases x) auto
  have "rev x \<noteq> []" and "\<not> is_space (hd (rev x))" using assms(1,3) by (simp_all add: hd_rev)
  then have 2: "dropWhile is_space (rev x) = rev x" by (cases "rev x") auto
  show ?thesis by (simp add: trim_def 1 2)
qed

lemma trim_trim [simp]: "trim (trim s) = trim s"
proof (cases "trim s = []")
  case True then show ?thesis by simp
next
  case False then show ?thesis by (intro trim_fixed trim_ends)
qed


section \<open>What an operation adds to the trace\<close>

lemma executed_append [simp]: "executed (xs @ ys) = executed xs @ executed ys"
  by (induction xs rule: executed.induct) simp_all

lemma model_inputs_append [simp]: "model_inputs (xs @ ys) = model_inputs xs @ model_inputs ys"
  by (induction xs rule: model_inputs.induct) simp_all

lemma visual_model_calls_append [simp]:
  "visual_model_calls (xs @ ys) = visual_model_calls xs + visual_model_calls ys"
  by (induction xs rule: visual_model_calls.induct) simp_all

lemma visual_executed_append [simp]:
  "visual_executed (xs @ ys) = visual_executed xs @ visual_executed ys"
  by (induction xs rule: visual_executed.induct) simp_all

lemma response_names_append [simp]:
  "response_names (xs @ ys) = response_names xs @ response_names ys"
  by (induction xs rule: response_names.induct) simp_all

lemma quiet_executed: "list_all quiet evs \<Longrightarrow> executed evs = []"
  by (induction evs rule: executed.induct) simp_all

lemma quiet_model_inputs: "list_all quiet evs \<Longrightarrow> model_inputs evs = []"
  by (induction evs rule: model_inputs.induct) simp_all

lemma quiet_timely: "quiet ev \<Longrightarrow> timely e ev"
  by (cases ev) simp_all

lemma extends_refl [simp]: "extends P s s"
  by (simp add: extends_def)

lemma extends_trans: "extends P s s' \<Longrightarrow> extends P s' s'' \<Longrightarrow> extends P s s''"
  by (auto simp: extends_def)

lemma extends_mono: "extends P s s' \<Longrightarrow> (\<And>ev. P ev \<Longrightarrow> Q ev) \<Longrightarrow> extends Q s s'"
  by (auto simp: extends_def list_all_iff)

lemma extends_tick [simp]: "extends P s (tick s)"
  by (simp add: extends_def tick_def)

lemma extends_emit: "P ev \<Longrightarrow> extends P s (emit ev s)"
  by (simp add: extends_def emit_def)

lemma extends_tick_emit: "P ev \<Longrightarrow> extends P s (tick (emit ev s))"
  by (simp add: extends_def emit_def tick_def)

lemma client_call_frame: "client_call e operation a s = (r, s') \<Longrightarrow> extends quiet s s'"
  by (auto simp: client_call_def extends_tick_emit)

lemma browser_call_frame: "browser_call e method a s = (r, s') \<Longrightarrow> extends quiet s s'"
  by (auto simp: browser_call_def extends_tick_emit)

lemma extends_invalidate_cache: "extends quiet s (invalidate_cache e s)"
proof (cases "mcp_client e (clock s)")
  case (Some msg)
  then show ?thesis by (simp add: invalidate_cache_def)
next
  case None
  obtain r s' where c: "client_call e ''evaluate_script''
      [(''function'', ''() => { return true; }'')] (tick s) = (r, s')"
    by fastforce
  from extends_trans [OF extends_tick client_call_frame [OF c]] None c
  show ?thesis by (simp add: invalidate_cache_def)
qed

lemma visual_switch_frame: "visual_switch e call s = (r, s') \<Longrightarrow> extends quiet s s'"
  by (auto simp: visual_switch_def Let_def split: option.splits if_splits
      dest: browser_call_frame)

lemma run_visual_calls_frame:
  "run_visual_calls e calls (rs, h, s) = (rs', h', s') \<Longrightarrow> extends quiet s s'"
proof (induction calls arbitrary: rs h s)
  case Nil
  then show ?case by simp
next
  case (Cons call calls)
  obtain r s1 where v: "visual_switch e call (emit (VisualExecuting (fc_name call)) s) = (r, s1)"
    by fastforce
  have 1: "extends quiet s (emit (VisualExecuting (fc_name call)) s)"
    by (simp add: extends_emit)
  note 2 = visual_switch_frame [OF v]
  from Cons.prems v have "run_visual_calls e calls
        (rs @ [VisualResponse (fc_name call) (visual_result r)],
         h @ [history_entry e call (visual_result r)], s1) = (rs', h', s')" by simp
  note 3 = Cons.IH [OF this]
  show ?case using extends_trans [OF extends_trans [OF 1 2] 3] .
qed

lemma visual_loop_step:
  "i < VISUAL_MAX_STEPS \<Longrightarrow>
   visual_loop e i contents actionHistory s =
     (case visual_iteration e contents actionHistory s of
        (VReturn r, s') \<Rightarrow> (r, s')
      | (VBreak, s') \<Rightarrow> exhausted e actionHistory s'
      | (VContinue contents' actionHistory', s') \<Rightarrow>
          visual_loop e (Suc i) contents' actionHistory' s')"
  by (subst visual_loop.simps) simp

lemma visual_loop_cap:
  "\<not> i < VISUAL_MAX_STEPS \<Longrightarrow>
   visual_loop e i contents actionHistory s = exhausted e actionHistory s"
  by (subst visual_loop.simps) simp

lemma visual_iteration_frame:
  assumes "visual_iteration e contents actionHistory s = (f, s')"
  shows "extends quiet s s'"
proof -
  let ?s1 = "tick (emit (VisualModelCall contents) s)"
  have s1: "extends quiet s ?s1" by (simp add: extends_tick_emit)
  have inv: "extends quiet s (invalidate_cache e ?s1)"
    using extends_trans [OF s1 extends_invalidate_cache] .
  have calls: "extends quiet s (tick s2)"
    if "run_visual_calls e cs ([], actionHistory, ?s1) = (rs, h, s2)" for cs rs h s2
    using extends_trans [OF extends_trans [OF s1 run_visual_calls_frame [OF that]] extends_tick] .
  show ?thesis
    using assms s1 inv calls
    by (auto simp: visual_iteration_def Let_def
        split: sum.splits option.splits prod.splits if_splits)
qed

lemma exhausted_frame: "exhausted e actionHistory s = (r, s') \<Longrightarrow> extends quiet s s'"
  by (auto simp: exhausted_def extends_invalidate_cache)

lemma visual_loop_frame:
  "visual_loop e i contents actionHistory s = (r, s') \<Longrightarrow> extends quiet s s'"
proof (induction "VISUAL_MAX_STEPS - i" arbitrary: i contents actionHistory s)
  case 0
  then show ?case by (simp add: visual_loop_cap exhausted_frame)
next
  case (Suc k)
  then have lt: "i < VISUAL_MAX_STEPS" by simp
  obtain f s1 where it: "visual_iteration e contents actionHistory s = (f, s1)"
    by fastforce
  note 1 = visual_iteration_frame [OF it]
  show ?case
  proof (cases f)
    case (VReturn r)
    with 1 it lt Suc.prems show ?thesis by (simp add: visual_loop_step)
  next
    case VBreak
    with it lt Suc.prems have "exhausted e actionHistory s1 = (r, s')"
      by (simp add: visual_loop_step)
    from extends_trans [OF 1 exhausted_frame [OF this]] show ?thesis .
  next
    case (VContinue c' h')
    with it lt Suc.prems have "visual_loop e (Suc i) c' h' s1 = (r, s')"
      by (simp add: visual_loop_step)
    moreover have "k = VISUAL_MAX_STEPS - Suc i" using Suc.hyps(2) by simp
    ultimately have "extends quiet s1 s'" by (rule Suc.hyps(1) [rotated])
    with 1 show ?thesis by (rule extends_trans)
  qed
qed

lemma runVisualDelegate_frame:
  "runVisualDelegate e instruction initialScreenshot s = (r, s') \<Longrightarrow> extends quiet s s'"
  by (auto simp: runVisualDelegate_def Let_def dest: visual_loop_frame)

section \<open>Frame of one call of the orchestrator\<close>

lemma browser_case_frame:
  assumes "browser_case e method fnArgs s = (r, s')"
  shows "extends quiet (ios s) (ios s') \<and> currentInputParts s' = currentInputParts s \<and>
         taskCompleted s' = taskCompleted s \<and> taskSummary s' = taskSummary s"
  using assms
  by (auto simp: browser_case_def split: prod.splits sum.splits dest: browser_call_frame)

lemma switch_call_frame:
  assumes "switch_call e fnName fnArgs s = (r, s')"
  shows "extends quiet (ios s) (ios s') \<and> currentInputParts s' = currentInputParts s"
proof (cases "mcp_operation fnName")
  case (Some operation)
  with assms show ?thesis
    by (auto simp: switch_call_def split: prod.splits sum.splits dest: client_call_frame)
next
  case None
  have v: "extends quiet (ios s) s2"
    if "runVisualDelegate e i sc (tick (ios s)) = (r2, s2)" for i sc r2 s2
    using extends_trans [OF extends_tick runVisualDelegate_frame [OF that]] .
  from None assms show ?thesis
    by (auto simp: switch_call_def Let_def split: if_splits prod.splits sum.splits
        dest: browser_case_frame v)
qed

lemma try_body_frame:
  assumes "try_body e fnName fnArgs s = (r, s')"
  shows "extends quiet (ios s) (ios s') \<and> currentInputParts s' = currentInputParts s"
proof (cases "mcp_client e (clock (ios s))")
  case (Some msg)
  with assms show ?thesis by (auto simp: try_body_def)
next
  case None
  obtain r1 s1 where sw: "switch_call e fnName fnArgs (s\<lparr>ios := tick (ios s)\<rparr>) = (r1, s1)"
    by fastforce
  from switch_call_frame [OF sw]
  have "extends quiet (ios s) (ios s1)" "currentInputParts s1 = currentInputParts s"
    using extends_trans [OF extends_tick, of quiet "ios s" "ios s1"] by simp_all
  moreover from assms None sw have "s' = s1"
    by (auto simp: try_body_def split: sum.splits prod.splits)
  ultimately show ?thesis by simp
qed

lemma execute_call_frame:
  "\<exists>v evs. trace (ios (execute_call e fnName fnArgs s)) =
             trace (ios s) @ Executing (clock (ios s)) fnName fnArgs # evs \<and>
           list_all quiet evs \<and>
           currentInputParts (execute_call e fnName fnArgs s) =
             currentInputParts s @ [FunctionResponse fnName v]"
proof -
  let ?s0 = "s\<lparr>ios := emit (Executing (clock (ios s)) fnName fnArgs) (ios s)\<rparr>"
  obtain r s' where tb: "try_body e fnName fnArgs ?s0 = (r, s')" by fastforce
  have ex: "execute_call e fnName fnArgs s =
      s'\<lparr>currentInputParts :=
           currentInputParts s' @ [FunctionResponse fnName (with_hint (caught fnName r))]\<rparr>"
    by (simp add: execute_call_def tb)
  from try_body_frame [OF tb] obtain evs where
    "trace (ios s') = trace (ios ?s0) @ evs" "list_all quiet evs"
    "currentInputParts s' = currentInputParts s"
    by (auto simp: extends_def)
  then show ?thesis
    unfolding ex by (auto simp: emit_def)
qed

section \<open>The loop over the calls of one turn\<close>

lemma runLoop_step:
  "iterationCount < MAX_ITERATIONS \<Longrightarrow>
   runLoop e iterationCount s =
     (case iteration e s of
        (Return msg, s') \<Rightarrow> (msg, s')
      | (Break, s') \<Rightarrow> finish s'
      | (Continue, s') \<Rightarrow> runLoop e (Suc iterationCount) s')"
  by (subst runLoop.simps) simp

lemma runLoop_cap: "\<not> iterationCount < MAX_ITERATIONS \<Longrightarrow> runLoop e iterationCount s = finish s"
  by (subst runLoop.simps) simp

lemma not_aborted [simp]: "abort_at e = None \<Longrightarrow> \<not> aborted e t"
  by (simp add: aborted_def)

lemma names_of_Cons:
  "names_of (call # calls) =
     (if unnamed call then names_of calls else name_str (fc_name call) # names_of calls)"
  by (simp add: names_of_def)

lemma names_of_Nil [simp]: "names_of [] = []"
  by (simp add: names_of_def)

lemma run_calls_no_abort:
  assumes "abort_at e = None"
  shows "\<exists>vs evs. length vs = length (names_of calls) \<and>
           currentInputParts (run_calls e calls s) =
             currentInputParts s @ map2 FunctionResponse (names_of calls) vs \<and>
           trace (ios (run_calls e calls s)) = trace (ios s) @ evs \<and>
           executed evs = names_of calls \<and> model_inputs evs = []"
proof (induction calls arbitrary: s)
  case Nil
  show ?case by simp
next
  case (Cons call calls)
  show ?case
  proof (cases "unnamed call")
    case True
    let ?s1 = "s\<lparr>ios := emit UnnamedCall (ios s)\<rparr>"
    from Cons.IH [of ?s1] obtain vs evs where
      "length vs = length (names_of calls)"
      "currentInputParts (run_calls e calls ?s1) =
         currentInputParts ?s1 @ map2 FunctionResponse (names_of calls) vs"
      "trace (ios (run_calls e calls ?s1)) = trace (ios ?s1) @ evs"
      "executed evs = names_of calls" "model_inputs evs = []"
      by blast
    then have "length vs = length (names_of (call # calls)) \<and>
           currentInputParts (run_calls e (call # calls) s) =
             currentInputParts s @ map2 FunctionResponse (names_of (call # calls)) vs \<and>
           trace (ios (run_calls e (call # calls) s)) = trace (ios s) @ (UnnamedCall # evs) \<and>
           executed (UnnamedCall # evs) = names_of (call # calls) \<and>
           model_inputs (UnnamedCall # evs) = []"
      using True assms by (simp add: names_of_Cons emit_def)
    then show ?thesis by blast
  next
    case False
    let ?n = "name_str (fc_name call)"
    let ?a = "case fc_args call of None \<Rightarrow> [] | Some a \<Rightarrow> a"
    let ?s1 = "execute_call e ?n ?a s"
    from execute_call_frame [of e ?n ?a s] obtain v evs1 where 1:
      "trace (ios ?s1) = trace (ios s) @ Executing (clock (ios s)) ?n ?a # evs1"
      "list_all quiet evs1"
      "currentInputParts ?s1 = currentInputParts s @ [FunctionResponse ?n v]"
      by blast
    from Cons.IH [of ?s1] obtain vs evs where 2:
      "length vs = length (names_of calls)"
      "currentInputParts (run_calls e calls ?s1) =
         currentInputParts ?s1 @ map2 FunctionResponse (names_of calls) vs"
      "trace (ios (run_calls e calls ?s1)) = trace (ios ?s1) @ evs"
      "executed evs = names_of calls" "model_inputs evs = []"
      by blast
    let ?evs = "Executing (clock (ios s)) ?n ?a # evs1 @ evs"
    have "length (v # vs) = length (names_of (call # calls)) \<and>
           currentInputParts (run_calls e (call # calls) s) =
             currentInputParts s @ map2 FunctionResponse (names_of (call # calls)) (v # vs) \<and>
           trace (ios (run_calls e (call # calls) s)) = trace (ios s) @ ?evs \<and>
           executed ?evs = names_of (call # calls) \<and>
           model_inputs ?evs = []"
      using False assms 1 2
      by (simp add: names_of_Cons quiet_executed quiet_model_inputs)
    then show ?thesis by blast
  qed
qed

lemma run_calls_timely: "extends (timely e) (ios s) (ios (run_calls e calls s))"
proof (induction calls arbitrary: s)
  case Nil
  show ?case by simp
next
  case (Cons call calls)
  show ?case
  proof (cases "aborted e (clock (ios s))")
    case True
    then show ?thesis by (simp add: extends_emit)
  next
    case na: False
    show ?thesis
    proof (cases "unnamed call")
      case True
      let ?s1 = "s\<lparr>ios := emit UnnamedCall (ios s)\<rparr>"
      have "extends (timely e) (ios s) (ios ?s1)" by (simp add: extends_emit)
      from extends_trans [OF this Cons.IH [of ?s1]] na True show ?thesis by simp
    next
      case False
      let ?n = "name_str (fc_name call)"
      let ?a = "case fc_args call of None \<Rightarrow> [] | Some a \<Rightarrow> a"
      let ?s1 = "execute_call e ?n ?a s"
      from execute_call_frame [of e ?n ?a s] obtain v evs1 where 1:
        "trace (ios ?s1) = trace (ios s) @ Executing (clock (ios s)) ?n ?a # evs1"
        "list_all quiet evs1"
        by blast
      have "list_all (timely e) evs1"
        using 1(2) by (auto simp: list_all_iff quiet_timely)
      with 1(1) na have "extends (timely e) (ios s) (ios ?s1)"
        by (auto simp: extends_def)
      from extends_trans [OF this Cons.IH [of ?s1]] na False show ?thesis by simp
    qed
  qed
qed


lemma run_calls_cancelled:
  "aborted e (clock (ios s)) \<Longrightarrow>
   run_calls e calls s = (if calls = [] then s else s\<lparr>ios := emit Cancelled (ios s)\<rparr>)"
  by (cases calls) simp_all

lemma run_calls_append:
  "abort_at e = None \<Longrightarrow> run_calls e (xs @ ys) s = run_calls e ys (run_calls e xs s)"
  by (induction xs arbitrary: s) simp_all

section \<open>One turn, and the whole loop\<close>

lemma consume_stream_trace: "trace (snd (consume_stream e events calls s)) = trace s"
  by (induction e events calls s rule: consume_stream.induct) (simp_all add: tick_def)

lemma consume_stream_no_abort:
  "abort_at e = None \<Longrightarrow> throws_free events \<Longrightarrow>
   fst (consume_stream e events calls s) = Inr (calls @ stream_calls events)"
  by (induction e events calls s rule: consume_stream.induct) simp_all

lemma iteration_timely:
  assumes "iteration e s = (f, s')"
  shows "extends (timely e) (ios s) (ios s')"
proof (cases "aborted e (clock (ios s))")
  case True
  with assms show ?thesis by (auto simp: iteration_def extends_emit)
next
  case na: False
  let ?parts = "currentInputParts s"
  let ?s0 = "emit (ModelCall (clock (ios s)) ?parts) (ios s)"
  obtain r s1 where cs:
    "consume_stream e (send_message_stream e (clock (ios s)) ?parts) [] ?s0 = (r, s1)"
    by fastforce
  have t1: "trace s1 = trace (ios s) @ [ModelCall (clock (ios s)) ?parts]"
    using consume_stream_trace [of e "send_message_stream e (clock (ios s)) ?parts" "[]" ?s0] cs
    by (simp add: emit_def)
  then have e1: "extends (timely e) (ios s) s1"
    using na by (simp add: extends_def)
  have e2: "extends (timely e) (ios s) (emit ev s1)" if "timely e ev" for ev
    using extends_trans [OF e1 extends_emit [of "timely e" ev s1, OF that]] .
  have e3: "extends (timely e) (ios s) (ios (run_calls e calls (s\<lparr>ios := s1, currentInputParts := []\<rparr>)))"
    for calls
  proof -
    have "extends (timely e) s1 (ios (run_calls e calls (s\<lparr>ios := s1, currentInputParts := []\<rparr>)))"
      using run_calls_timely [of e "s\<lparr>ios := s1, currentInputParts := []\<rparr>" calls] by simp
    with e1 show ?thesis by (rule extends_trans)
  qed
  show ?thesis
    using assms na cs e1 e2 e3
    by (auto simp: iteration_def Let_def split: sum.splits if_splits)
qed

lemma finish_state [simp]: "snd (finish s) = s"
  by (simp add: finish_def)

lemma runLoop_timely: "extends (timely e) (ios s) (ios (snd (runLoop e n s)))"
proof (induction "MAX_ITERATIONS - n" arbitrary: n s)
  case 0
  then show ?case by (simp add: runLoop_cap)
next
  case (Suc k)
  then have lt: "n < MAX_ITERATIONS" by simp
  obtain f s1 where it: "iteration e s = (f, s1)" by fastforce
  note 1 = iteration_timely [OF it]
  show ?case
  proof (cases f)
    case (Return msg)
    with 1 it lt show ?thesis by (simp add: runLoop_step)
  next
    case Break
    with 1 it lt show ?thesis by (simp add: runLoop_step)
  next
    case Continue
    have "k = MAX_ITERATIONS - Suc n" using Suc.hyps(2) by simp
    from Suc.hyps(1) [OF this] have "extends (timely e) (ios s1) (ios (snd (runLoop e (Suc n) s1)))" .
    from extends_trans [OF 1 this] Continue it lt show ?thesis by (simp add: runLoop_step)
  qed
qed

lemma initial_snapshot_parts_frame:
  "initial_snapshot_parts e s = (ps, s') \<Longrightarrow> extends quiet s s'"
proof -
  assume a: "initial_snapshot_parts e s = (ps, s')"
  have c: "extends quiet s s2"
    if "client_call e ''take_snapshot'' [(''verbose'', ''false'')] (tick s) = (r, s2)" for r s2
    using extends_trans [OF extends_tick client_call_frame [OF that]] .
  from a show ?thesis
    by (auto simp: initial_snapshot_parts_def Let_def
        split: option.splits prod.splits sum.splits if_splits dest: c)
qed

lemma runTask_timely: "list_all (timely e) (trace (ios (snd (runTask e prompt))))"
proof (cases "ensure_connection e")
  case (Some msg)
  then show ?thesis by (simp add: runTask_def)
next
  case None
  obtain ps s0 where i: "initial_snapshot_parts e \<lparr> clock = 3, trace = [] \<rparr> = (ps, s0)"
    by fastforce
  let ?st = "\<lparr> ios = s0, currentInputParts = TextPart (''Task: '' @ prompt) # ps,
                taskCompleted = False, taskSummary = [] \<rparr>"
  have "extends (timely e) \<lparr> clock = 3, trace = [] \<rparr> s0"
    using extends_mono [OF initial_snapshot_parts_frame [OF i]] quiet_timely by blast
  from extends_trans [OF this] runLoop_timely [of e ?st 0]
  have "extends (timely e) \<lparr> clock = 3, trace = [] \<rparr> (ios (snd (runLoop e 0 ?st)))" by simp
  then show ?thesis using None i by (simp add: runTask_def extends_def)
qed

section \<open>Unfolding a concrete run\<close>

lemmas run_defs = iteration_def execute_call_def try_body_def switch_call_def mcp_operation_def
  post_process_def semantic_tools_def caught_def with_hint_def blocked_by_overlay_def
  browser_case_def browser_call_def client_call_def emit_def tick_def aborted_def unnamed_def
  name_str_def or_else_def finish_def falsy_def result_text_def item_text_def
  processToolResponse_def trim_def initial_snapshot_parts_def

lemmas sample_defs = quiet_env_def named_call_def first_turn_def start_state_def
  nameless_call_def click_def cancel_env_def failing_env_def navigate_env_def
  empty_stream_env_def complete_def complete_then_click_env_def visual_click_env_def


section \<open>Connecting once\<close>

lemma ensure_noop:
  assumes "browser_connected bm w" and "client_connected bm w"
  shows "\<exists>r bm'. ensureConnection bm w = (r, bm', w) \<and> browser bm' = browser bm \<and>
           mcpClient bm' = mcpClient bm \<and> page bm' = page bm"
  using assms
  by (auto simp: ensureConnection_def ensureBrowserLaunched_def browser_connected_def
      client_connected_def Let_def split: option.splits sum.splits)

lemma launchBrowser_bound:
  "launchBrowser port bm w = (r, bm', w') \<Longrightarrow>
     length (browsers w') \<le> Suc (length (browsers w)) \<and> registrations w' = registrations w
     \<and> registry w' = registry w \<and> has_mcp_manager w' = has_mcp_manager w
     \<and> discovered w' = discovered w \<and> connect_error w' = connect_error w"
  by (auto simp: launchBrowser_def Let_def split: option.splits)

lemma connectMcp_bound:
  "connectMcp port bm w = (r, bm', w') \<Longrightarrow>
     browsers w' = browsers w \<and> length (registrations w') \<le> Suc (length (registrations w))"
  by (auto simp: connectMcp_def Let_def split: option.splits if_splits)

lemma ensure_bound:
  assumes "ensureConnection bm w = (r, bm', w')"
  shows "length (browsers w') \<le> Suc (length (browsers w)) \<and>
         length (registrations w') \<le> Suc (length (registrations w))"
  using assms
  apply (auto simp: ensureConnection_def ensureBrowserLaunched_def  Let_def split: option.splits sum.splits if_splits prod.splits dest!: launchBrowser_bound connectMcp_bound)
  done

lemma launchBrowser_success:
  "launchBrowser port bm w = (Inr u, bm', w') \<Longrightarrow>
     browser_connected bm' w' \<and> remoteDebuggingPort bm' = remoteDebuggingPort bm \<and>
     mcpClient bm' = mcpClient bm \<and> free_port w' = free_port w"
  by (auto simp: launchBrowser_def Let_def browser_connected_def split: option.splits)

lemma connectMcp_success:
  "connectMcp port bm w = (Inr u, bm', w') \<Longrightarrow>
     client_connected bm' w' \<and> remoteDebuggingPort bm' = remoteDebuggingPort bm \<and>
     browser bm' = browser bm \<and> browsers w' = browsers w \<and> free_port w' = free_port w"
  by (auto simp: connectMcp_def Let_def client_connected_def split: option.splits if_splits)

lemma browser_connected_cong:
  "browser bm' = browser bm \<Longrightarrow> browsers w' = browsers w \<Longrightarrow>
   browser_connected bm' w' = browser_connected bm w"
  by (cases "browser bm") (simp_all add: browser_connected_def)

lemma connected_port_upd:
  "browser_connected (bm\<lparr>remoteDebuggingPort := x\<rparr>) w = browser_connected bm w"
  "client_connected (bm\<lparr>remoteDebuggingPort := x\<rparr>) w = client_connected bm w"
  by (simp_all add: browser_connected_def client_connected_def)

lemma ensure_success:
  assumes "ensureConnection bm w = (Inr u, bm', w')"
  shows "browser_connected bm' w' \<and> client_connected bm' w' \<and>
         (\<exists>port. remoteDebuggingPort bm' = Some port \<and> (port = 0 \<longrightarrow> free_port w' = Inr 0))"
proof -
  from assms obtain port where
    port: "(case remoteDebuggingPort bm of None \<Rightarrow> free_port w
            | Some p \<Rightarrow> if p = 0 then free_port w else Inr p) = Inr port"
    by (auto simp: ensureConnection_def ensureBrowserLaunched_def split: sum.splits)
  define bm1 where "bm1 = bm\<lparr>remoteDebuggingPort := Some port\<rparr>"
  define launched where "launched = (if \<not> browser_connected bm1 w then launchBrowser port bm1 w
                           else (Inr (), bm1, w))"
  from assms port have
    "(case launched of
        (Inl e, bm2, w2) \<Rightarrow> (Inl e, bm2, w2)
      | (Inr u, bm2, w2) \<Rightarrow>
          (if \<not> client_connected bm2 w2 then connectMcp port bm2 w2 else (Inr (), bm2, w2)))
     = (Inr u, bm', w')"
    unfolding ensureConnection_def ensureBrowserLaunched_def Let_def bm1_def launched_def
    by (simp split del: if_split)
  then obtain bm2 w2 where l: "launched = (Inr (), bm2, w2)"
    and c: "(if \<not> client_connected bm2 w2 then connectMcp port bm2 w2 else (Inr (), bm2, w2))
            = (Inr u, bm', w')"
    by (cases launched; cases "fst launched") auto
  have p0: "port = 0 \<longrightarrow> free_port w = Inr 0"
    using port by (auto split: option.splits if_splits)
  have b2: "browser_connected bm2 w2 \<and> remoteDebuggingPort bm2 = Some port \<and> free_port w2 = free_port w"
    using l unfolding launched_def
    by (auto simp: bm1_def split: if_splits dest!: launchBrowser_success)
  show ?thesis
  proof (cases "client_connected bm2 w2")
    case True
    with c b2 p0 show ?thesis by auto
  next
    case False
    with c have "connectMcp port bm2 w2 = (Inr u, bm', w')" by simp
    from connectMcp_success [OF this]
    have cs: "client_connected bm' w'" "remoteDebuggingPort bm' = remoteDebuggingPort bm2"
      "browser bm' = browser bm2" "browsers w' = browsers w2" "free_port w' = free_port w2"
      by simp_all
    from browser_connected_cong [OF cs(3,4)] b2 have "browser_connected bm' w'" by simp
    with cs b2 p0 show ?thesis by simp
  qed
qed

lemma ensure_connected_eq:
  assumes "browser_connected bm w" and "client_connected bm w"
    and "remoteDebuggingPort bm = Some port" and "port = 0 \<longrightarrow> free_port w = Inr 0"
  shows "ensureConnection bm w = (Inr (), bm, w)"
  using assms
  by (auto simp: ensureConnection_def ensureBrowserLaunched_def Let_def connected_port_upd)

text \<open>
  Claim C6. In a state where the browser is connected and the protocol client reports
  \<open>connected\<close>, \<open>ensureConnection\<close> leaves the world as it is: no browser is launched, no
  client is registered, and the manager keeps the browser, the page and the client it
  has (with the port already allocated the whole manager is unchanged and the call
  succeeds); \<open>getMcpClient\<close> returns the client it holds without connecting again. A
  successful \<open>ensureConnection\<close> leads to such a state, so a second call right after it
  is a no-op. From any state one call launches at most one browser and registers at most
  one client, and the manager has a single field for each.
\<close>

theorem ensureConnection_idempotent:
  "(browser_connected bm w \<and> client_connected bm w \<longrightarrow>
      (\<exists>r bm1. ensureConnection bm w = (r, bm1, w) \<and> browser bm1 = browser bm \<and>
                mcpClient bm1 = mcpClient bm \<and> page bm1 = page bm)
      \<and> (\<forall>port. remoteDebuggingPort bm = Some port \<and> port \<noteq> 0 \<longrightarrow>
            ensureConnection bm w = (Inr (), bm, w))
      \<and> (\<exists>c. mcpClient bm = Some c \<and> getMcpClient bm w = (Inr c, bm, w)))
   \<and> (ensureConnection bm w = (Inr (), bm', w') \<longrightarrow>
        ensureConnection bm' w' = (Inr (), bm', w'))
   \<and> (ensureConnection bm w = (r, bm', w') \<longrightarrow>
        length (browsers w') \<le> Suc (length (browsers w)) \<and>
        length (registrations w') \<le> Suc (length (registrations w)))"
proof (intro conjI impI allI)
  assume "browser_connected bm w \<and> client_connected bm w"
  then show "\<exists>r bm1. ensureConnection bm w = (r, bm1, w) \<and> browser bm1 = browser bm \<and>
                mcpClient bm1 = mcpClient bm \<and> page bm1 = page bm"
    using ensure_noop by blast
next
  fix port
  assume "browser_connected bm w \<and> client_connected bm w"
    and "remoteDebuggingPort bm = Some port \<and> port \<noteq> 0"
  then show "ensureConnection bm w = (Inr (), bm, w)"
    using ensure_connected_eq by blast
next
  assume "browser_connected bm w \<and> client_connected bm w"
  then show "\<exists>c. mcpClient bm = Some c \<and> getMcpClient bm w = (Inr c, bm, w)"
    by (auto simp: getMcpClient_def client_connected_def split: option.splits)
next
  assume "ensureConnection bm w = (Inr (), bm', w')"
  from ensure_success [OF this] show "ensureConnection bm' w' = (Inr (), bm', w')"
    using ensure_connected_eq by blast
next
  assume "ensureConnection bm w = (r, bm', w')"
  then show "length (browsers w') \<le> Suc (length (browsers w))"
    and "length (registrations w') \<le> Suc (length (registrations w))"
    using ensure_bound by blast+
qed

text \<open>The theorem at the state reached by the first connection of a new manager.\<close>

theorem ensureConnection_idempotent_witness:
  "ensureConnection new_manager fresh_world =
     (Inr (),
      \<lparr> mcpClient = Some 9222, browser = Some 0, page = Some 0, remoteDebuggingPort = Some 9222 \<rparr>,
      fresh_world\<lparr> browsers := [(9222, True)], registry := [9222 \<mapsto> Connected],
                   registrations := [9222] \<rparr>)
   \<and> ensureConnection
        \<lparr> mcpClient = Some 9222, browser = Some 0, page = Some 0, remoteDebuggingPort = Some 9222 \<rparr>
        (fresh_world\<lparr> browsers := [(9222, True)], registry := [9222 \<mapsto> Connected],
                      registrations := [9222] \<rparr>) =
     (Inr (),
      \<lparr> mcpClient = Some 9222, browser = Some 0, page = Some 0, remoteDebuggingPort = Some 9222 \<rparr>,
      fresh_world\<lparr> browsers := [(9222, True)], registry := [9222 \<mapsto> Connected],
                   registrations := [9222] \<rparr>)
   \<and> browser_connected
        \<lparr> mcpClient = Some 9222, browser = Some 0, page = Some 0, remoteDebuggingPort = Some 9222 \<rparr>
        (fresh_world\<lparr> browsers := [(9222, True)], registry := [9222 \<mapsto> Connected],
                      registrations := [9222] \<rparr>)
   \<and> client_connected
        \<lparr> mcpClient = Some 9222, browser = Some 0, page = Some 0, remoteDebuggingPort = Some 9222 \<rparr>
        (fresh_world\<lparr> browsers := [(9222, True)], registry := [9222 \<mapsto> Connected],
                      registrations := [9222] \<rparr>)"
proof -
  let ?bm = "\<lparr> mcpClient = Some 9222, browser = Some 0, page = Some 0, remoteDebuggingPort = Some 9222 \<rparr>"
  let ?w = "fresh_world\<lparr> browsers := [(9222, True)], registry := [9222 \<mapsto> Connected],
                      registrations := [9222] \<rparr>"
  have run: "ensureConnection new_manager fresh_world = (Inr (), ?bm, ?w)"
    by (simp add: ensureConnection_def ensureBrowserLaunched_def new_manager_def fresh_world_def
        browser_connected_def client_connected_def launchBrowser_def connectMcp_def Let_def)
  have b: "browser_connected ?bm ?w" by (simp add: browser_connected_def fresh_world_def)
  have c: "client_connected ?bm ?w" by (simp add: client_connected_def fresh_world_def)
  from ensureConnection_idempotent [of ?bm ?w ?bm ?w "Inr ()"] b c
  have "ensureConnection ?bm ?w = (Inr (), ?bm, ?w)" by simp
  with run b c show ?thesis by simp
qed

section \<open>Snapshot-text splitting\<close>





section \<open>Overlay detection\<close>

lemma overlay_elements_eq:
  "fst (scan_lines snapshot) =
     concat (map (\<lambda>line.
        (if \<exists>role \<in> set overlayRoles. role_hit (toLowerCase line) role then [trim line] else [])
        @ (if str_includes (toLowerCase line) aria_modal then [trim line] else []))
       (split_str newline snapshot))"
  by (simp add: scan_lines_def fst_foldl_scan_line)

lemma hasOverlay_iff:
  "hasOverlay (detectBlockingOverlays snapshot) \<longleftrightarrow>
     (\<exists>line \<in> set (split_str newline snapshot).
        (\<exists>role \<in> set overlayRoles. role_hit (toLowerCase line) role)
        \<or> str_includes (toLowerCase line) aria_modal)"
  by (auto simp: detectBlockingOverlays_def Let_def overlay_elements_eq)

text \<open>
  Claim C9, as the code has it. \<open>hasOverlay\<close> is true exactly when some line of the snapshot,
  lower-cased, contains \<open>role="r"\<close> or the word \<open>r\<close> with a space on each side, for \<open>r\<close> one of
  dialog, alertdialog and tooltip, or contains \<open>aria-modal="true"\<close>. So it is true whenever
  a line contains one of the four attribute markers, and false when no line has an
  attribute marker or a space-delimited role word. The description lists the first three
  collected lines and no more.
\<close>

theorem overlay_detection:
  "(hasOverlay (detectBlockingOverlays snapshot) \<longleftrightarrow>
      (\<exists>line \<in> set (split_str newline snapshot).
         (\<exists>role \<in> set overlayRoles.
            str_includes (toLowerCase line) (role_attr role) \<or>
            str_includes (toLowerCase line) (role_word role))
         \<or> str_includes (toLowerCase line) aria_modal))
   \<and> ((\<exists>line \<in> set (split_str newline snapshot).
          str_includes line (role_attr ''dialog'') \<or>
          str_includes line (role_attr ''alertdialog'') \<or>
          str_includes line (role_attr ''tooltip'') \<or>
          str_includes line aria_modal)
        \<longrightarrow> hasOverlay (detectBlockingOverlays snapshot))
   \<and> overlayInfo (detectBlockingOverlays snapshot) =
        (if hasOverlay (detectBlockingOverlays snapshot)
         then ''Detected overlay elements:'' @ newline @
              join newline (take 3 (fst (scan_lines snapshot)))
         else [])"
proof (intro conjI impI)
  show "hasOverlay (detectBlockingOverlays snapshot) \<longleftrightarrow>
      (\<exists>line \<in> set (split_str newline snapshot).
         (\<exists>role \<in> set overlayRoles.
            str_includes (toLowerCase line) (role_attr role) \<or>
            str_includes (toLowerCase line) (role_word role))
         \<or> str_includes (toLowerCase line) aria_modal)"
    unfolding hasOverlay_iff role_hit_def ..
next
  assume "\<exists>line \<in> set (split_str newline snapshot).
          str_includes line (role_attr ''dialog'') \<or>
          str_includes line (role_attr ''alertdialog'') \<or>
          str_includes line (role_attr ''tooltip'') \<or>
          str_includes line aria_modal"
  then obtain line where l: "line \<in> set (split_str newline snapshot)"
    and m: "str_includes line (role_attr ''dialog'') \<or>
          str_includes line (role_attr ''alertdialog'') \<or>
          str_includes line (role_attr ''tooltip'') \<or>
          str_includes line aria_modal" by blast
  from m have "(\<exists>role \<in> set overlayRoles. role_hit (toLowerCase line) role)
        \<or> str_includes (toLowerCase line) aria_modal"
    by (auto simp: overlayRoles_def role_hit_def dest: str_includes_lower simp: lower_markers)
  with l show "hasOverlay (detectBlockingOverlays snapshot)"
    unfolding hasOverlay_iff by blast
next
  show "overlayInfo (detectBlockingOverlays snapshot) =
        (if hasOverlay (detectBlockingOverlays snapshot)
         then ''Detected overlay elements:'' @ newline @
              join newline (take 3 (fst (scan_lines snapshot)))
         else [])"
    by (simp add: detectBlockingOverlays_def Let_def)
qed

text \<open>The theorem at a snapshot that collects four lines, and at one that collects none.\<close>

theorem overlay_detection_witness:
  "hasOverlay (detectBlockingOverlays four_dialogs)
   \<and> (\<exists>line \<in> set (split_str newline four_dialogs). str_includes line (role_attr ''dialog''))
   \<and> length (fst (scan_lines four_dialogs)) = 4
   \<and> overlayInfo (detectBlockingOverlays four_dialogs) =
       ''Detected overlay elements:'' @ newline @
       ''uid=1 role='' @ [CHR 0x22] @ ''dialog'' @ [CHR 0x22] @ newline @
       ''uid=2 ROLE='' @ [CHR 0x22] @ ''Tooltip'' @ [CHR 0x22] @ newline @
       ''uid=4 aria-modal='' @ [CHR 0x22] @ ''true'' @ [CHR 0x22]
   \<and> \<not> hasOverlay (detectBlockingOverlays ''uid=3 heading'')"
proof -
  have h: "\<exists>line \<in> set (split_str newline four_dialogs). str_includes line (role_attr ''dialog'')"
    by code_simp
  then have h': "\<exists>line \<in> set (split_str newline four_dialogs).
          str_includes line (role_attr ''dialog'') \<or>
          str_includes line (role_attr ''alertdialog'') \<or>
          str_includes line (role_attr ''tooltip'') \<or>
          str_includes line aria_modal" by blast
  have n: "\<not> (\<exists>line \<in> set (split_str newline ''uid=3 heading'').
         (\<exists>role \<in> set overlayRoles.
            str_includes (toLowerCase line) (role_attr role) \<or>
            str_includes (toLowerCase line) (role_word role))
         \<or> str_includes (toLowerCase line) aria_modal)"
    by code_simp
  have c: "fst (scan_lines four_dialogs) =
     [''uid=1 role='' @ [CHR 0x22] @ ''dialog'' @ [CHR 0x22],
      ''uid=2 ROLE='' @ [CHR 0x22] @ ''Tooltip'' @ [CHR 0x22],
      ''uid=4 aria-modal='' @ [CHR 0x22] @ ''true'' @ [CHR 0x22],
      ''uid=5 alertdialog x'']"
    by code_simp
  have ov: "hasOverlay (detectBlockingOverlays four_dialogs)"
    using overlay_detection [of four_dialogs] h' by blast
  moreover have "\<not> hasOverlay (detectBlockingOverlays ''uid=3 heading'')"
    using overlay_detection [of "''uid=3 heading''"] n by blast
  moreover have "overlayInfo (detectBlockingOverlays four_dialogs) =
       ''Detected overlay elements:'' @ newline @
       ''uid=1 role='' @ [CHR 0x22] @ ''dialog'' @ [CHR 0x22] @ newline @
       ''uid=2 ROLE='' @ [CHR 0x22] @ ''Tooltip'' @ [CHR 0x22] @ newline @
       ''uid=4 aria-modal='' @ [CHR 0x22] @ ''true'' @ [CHR 0x22]"
    using overlay_detection [of four_dialogs] ov by (simp add: c)
  ultimately show ?thesis using h c by simp
qed

text \<open>
  Claim C9 as stated fails on a line that names a role as a plain word: the snapshot has
  no \<open>role=\<close> attribute and no \<open>aria-modal\<close> attribute, and an overlay is reported.
\<close>

theorem overlay_without_marker_counterexample:
  "hasOverlay (detectBlockingOverlays ''uid=1 dialog x'')
   \<and> \<not> str_includes ''uid=1 dialog x'' (role_attr ''dialog'')
   \<and> \<not> str_includes ''uid=1 dialog x'' (role_attr ''alertdialog'')
   \<and> \<not> str_includes ''uid=1 dialog x'' (role_attr ''tooltip'')
   \<and> \<not> str_includes ''uid=1 dialog x'' aria_modal
   \<and> \<not> str_includes ''uid=1 dialog x'' ''role''
   \<and> \<not> str_includes ''uid=1 dialog x'' ''aria-modal''"
  by code_simp

section \<open>The calls of a visual turn\<close>

lemma tool_event_visual: "list_all tool_event evs \<Longrightarrow> visual_executed evs = [] \<and> visual_model_calls evs = 0"
  by (induction evs rule: visual_executed.induct) simp_all

lemma visual_switch_tools: "visual_switch e call s = (r, s') \<Longrightarrow> extends tool_event s s'"
  by (auto simp: visual_switch_def Let_def browser_call_def extends_tick_emit
      split: option.splits if_splits)


lemma run_visual_calls_all:
  "run_visual_calls e calls (rs, h, s) = (rs', h', s') \<Longrightarrow>
   \<exists>new entries evs. rs' = rs @ new \<and> length new = length calls \<and>
      h' = h @ entries \<and> length entries = length calls \<and>
      trace s' = trace s @ evs \<and> visual_executed evs = map fc_name calls \<and>
      visual_model_calls evs = 0"
proof (induction calls arbitrary: rs h s)
  case Nil
  then show ?case by simp
next
  case (Cons call calls)
  obtain r s1 where v: "visual_switch e call (emit (VisualExecuting (fc_name call)) s) = (r, s1)"
    by fastforce
  from visual_switch_tools [OF v] obtain evs1 where 1:
    "trace s1 = trace s @ VisualExecuting (fc_name call) # evs1" "list_all tool_event evs1"
    by (auto simp: extends_def emit_def)
  let ?rs = "rs @ [VisualResponse (fc_name call) (visual_result r)]"
  let ?h = "h @ [history_entry e call (visual_result r)]"
  from Cons.prems v have "run_visual_calls e calls (?rs, ?h, s1) = (rs', h', s')" by simp
  from Cons.IH [OF this] obtain new entries evs where 2:
    "rs' = ?rs @ new" "length new = length calls" "h' = ?h @ entries"
    "length entries = length calls" "trace s' = trace s1 @ evs"
    "visual_executed evs = map fc_name calls" "visual_model_calls evs = 0"
    by blast
  let ?new = "VisualResponse (fc_name call) (visual_result r) # new"
  let ?entries = "history_entry e call (visual_result r) # entries"
  let ?evs = "VisualExecuting (fc_name call) # evs1 @ evs"
  have "rs' = rs @ ?new \<and> length ?new = length (call # calls) \<and>
      h' = h @ ?entries \<and> length ?entries = length (call # calls) \<and>
      trace s' = trace s @ ?evs \<and> visual_executed ?evs = map fc_name (call # calls) \<and>
      visual_model_calls ?evs = 0"
    using 1 2 by (simp add: tool_event_visual)
  then show ?case by blast
qed

section \<open>Order of execution\<close>

lemma names_of_all_named:
  "\<forall>c \<in> set calls. \<not> unnamed c \<Longrightarrow> length (names_of calls) = length calls"
  by (simp add: names_of_def)

lemma names_of_some_unnamed:
  assumes "\<exists>c \<in> set calls. unnamed c"
  shows "length (names_of calls) < length calls"
proof -
  from assms obtain c where "c \<in> set calls" "\<not> \<not> unnamed c" by auto
  then have "length (filter (\<lambda>c. \<not> unnamed c) calls) < length calls"
    by (rule length_filter_less)
  then show ?thesis by (simp add: names_of_def)
qed

lemma iteration_executes:
  assumes "abort_at e = None"
    and "throws_free (send_message_stream e (clock (ios s)) (currentInputParts s))"
    and "stream_calls (send_message_stream e (clock (ios s)) (currentInputParts s)) = calls"
    and "calls \<noteq> []"
  shows "\<exists>s1. trace s1 = trace (ios s) @ [ModelCall (clock (ios s)) (currentInputParts s)] \<and>
           iteration e s =
             (let s2 = run_calls e calls (s\<lparr>ios := s1, currentInputParts := []\<rparr>)
              in (if taskCompleted s2 then Break else Continue, s2))"
proof -
  let ?parts = "currentInputParts s"
  let ?s0 = "emit (ModelCall (clock (ios s)) ?parts) (ios s)"
  obtain r s1 where cs:
    "consume_stream e (send_message_stream e (clock (ios s)) ?parts) [] ?s0 = (r, s1)"
    by fastforce
  have r: "r = Inr calls"
    using consume_stream_no_abort [OF assms(1,2), of "[]" ?s0] cs assms(3) by simp
  have t: "trace s1 = trace (ios s) @ [ModelCall (clock (ios s)) ?parts]"
    using consume_stream_trace [of e "send_message_stream e (clock (ios s)) ?parts" "[]" ?s0] cs
    by (simp add: emit_def)
  have "iteration e s =
     (let s2 = run_calls e calls (s\<lparr>ios := s1, currentInputParts := []\<rparr>)
      in (if taskCompleted s2 then Break else Continue, s2))"
    using assms(1,4) cs r by (simp add: iteration_def Let_def)
  with t show ?thesis by blast
qed

text \<open>
  Claim C3, as the code has it. Absent cancellation, the calls of a turn that have a name
  are executed one after the other in the order the model returned them, and each adds
  exactly one function-response part, under its name and in that order, to the input of
  the next turn, which holds nothing else; a call without a name adds none. When every
  call has a name there are as many response parts as calls.
\<close>

theorem calls_in_order:
  "abort_at e = None \<Longrightarrow>
     (\<exists>vs evs. length vs = length (names_of calls) \<and>
        currentInputParts (run_calls e calls (s\<lparr>currentInputParts := []\<rparr>)) =
          map2 FunctionResponse (names_of calls) vs \<and>
        trace (ios (run_calls e calls (s\<lparr>currentInputParts := []\<rparr>))) = trace (ios s) @ evs \<and>
        executed evs = names_of calls)
     \<and> ((\<forall>c \<in> set calls. \<not> unnamed c) \<longrightarrow>
          length (currentInputParts (run_calls e calls (s\<lparr>currentInputParts := []\<rparr>))) =
            length calls)
     \<and> (throws_free (send_message_stream e (clock (ios s)) (currentInputParts s)) \<longrightarrow>
          stream_calls (send_message_stream e (clock (ios s)) (currentInputParts s)) = calls \<longrightarrow>
          calls \<noteq> [] \<longrightarrow>
          (\<exists>vs. length vs = length (names_of calls) \<and>
             currentInputParts (snd (iteration e s)) =
               map2 FunctionResponse (names_of calls) vs))"
proof (intro conjI impI)
  assume na: "abort_at e = None"
  from run_calls_no_abort [OF na, of calls "s\<lparr>currentInputParts := []\<rparr>"]
  obtain vs evs where 1: "length vs = length (names_of calls)"
    "currentInputParts (run_calls e calls (s\<lparr>currentInputParts := []\<rparr>)) =
       map2 FunctionResponse (names_of calls) vs"
    "trace (ios (run_calls e calls (s\<lparr>currentInputParts := []\<rparr>))) = trace (ios s) @ evs"
    "executed evs = names_of calls"
    by auto
  then show "\<exists>vs evs. length vs = length (names_of calls) \<and>
        currentInputParts (run_calls e calls (s\<lparr>currentInputParts := []\<rparr>)) =
          map2 FunctionResponse (names_of calls) vs \<and>
        trace (ios (run_calls e calls (s\<lparr>currentInputParts := []\<rparr>))) = trace (ios s) @ evs \<and>
        executed evs = names_of calls"
    by blast
  {
    assume "\<forall>c \<in> set calls. \<not> unnamed c"
    from names_of_all_named [OF this] 1(1,2)
    show "length (currentInputParts (run_calls e calls (s\<lparr>currentInputParts := []\<rparr>))) =
            length calls"
      by simp
  }
  {
    assume "throws_free (send_message_stream e (clock (ios s)) (currentInputParts s))"
      "stream_calls (send_message_stream e (clock (ios s)) (currentInputParts s)) = calls"
      "calls \<noteq> []"
    from iteration_executes [OF na this] obtain s1 where
      it: "iteration e s =
             (let s2 = run_calls e calls (s\<lparr>ios := s1, currentInputParts := []\<rparr>)
              in (if taskCompleted s2 then Break else Continue, s2))"
      by blast
    from run_calls_no_abort [OF na, of calls "s\<lparr>ios := s1, currentInputParts := []\<rparr>"]
    obtain vs where "length vs = length (names_of calls)"
      "currentInputParts (run_calls e calls (s\<lparr>ios := s1, currentInputParts := []\<rparr>)) =
         map2 FunctionResponse (names_of calls) vs"
      by auto
    with it show "\<exists>vs. length vs = length (names_of calls) \<and>
             currentInputParts (snd (iteration e s)) =
               map2 FunctionResponse (names_of calls) vs"
      by (auto simp: Let_def)
  }
qed

text \<open>The theorem at a turn of two clicks.\<close>

theorem calls_in_order_witness:
  "abort_at quiet_env = None
   \<and> currentInputParts (run_calls quiet_env [click ''1'', click ''2''] start_state) =
       [FunctionResponse ''click'' (Str []), FunctionResponse ''click'' (Str [])]
   \<and> length (currentInputParts (run_calls quiet_env [click ''1'', click ''2'']
        (start_state\<lparr>currentInputParts := []\<rparr>))) = length [click ''1'', click ''2'']"
proof -
  have na: "abort_at quiet_env = None" by (simp add: quiet_env_def)
  have nn: "\<forall>c \<in> set [click ''1'', click ''2'']. \<not> unnamed c"
    by (simp add: click_def named_call_def unnamed_def)
  have ev: "currentInputParts (run_calls quiet_env [click ''1'', click ''2''] start_state) =
       [FunctionResponse ''click'' (Str []), FunctionResponse ''click'' (Str [])]"
    by (simp add: sample_defs run_defs Let_def)
  from calls_in_order [OF na, of "[click ''1'', click ''2'']" start_state] nn na ev
  show ?thesis by simp
qed

text \<open>
  Claim C3 as stated fails on a call without a name: with no cancellation and no
  \<open>complete_task\<close>, a turn of one such call leaves the next input without any response part.
\<close>

theorem nameless_call_counterexample:
  "abort_at quiet_env = None
   \<and> fc_name nameless_call \<noteq> Some ''complete_task''
   \<and> length [nameless_call] = 1
   \<and> currentInputParts (run_calls quiet_env [nameless_call] start_state) = []"
  by (simp add: sample_defs run_defs)

section \<open>Calls without a name\<close>

text \<open>
  Claim C10. A call whose name is missing or empty is skipped: the loop goes on with the
  remaining calls from the same input parts, having only noted the call. So a turn with
  such a call adds fewer response parts than it has calls, one for each call that has a
  name.
\<close>

theorem unnamed_call_skipped:
  "(\<not> aborted e (clock (ios s)) \<longrightarrow> unnamed call \<longrightarrow>
      run_calls e (call # calls) s = run_calls e calls (s\<lparr>ios := emit UnnamedCall (ios s)\<rparr>))
   \<and> (abort_at e = None \<longrightarrow> (\<exists>c \<in> set calls. unnamed c) \<longrightarrow>
        (\<exists>ps. currentInputParts (run_calls e calls s) = currentInputParts s @ ps \<and>
              length ps < length calls \<and> response_names ps = names_of calls \<and>
              length ps = length (names_of calls)))"
proof (intro conjI impI)
  assume "\<not> aborted e (clock (ios s))" "unnamed call"
  then show "run_calls e (call # calls) s =
      run_calls e calls (s\<lparr>ios := emit UnnamedCall (ios s)\<rparr>)"
    by simp
next
  assume na: "abort_at e = None" and un: "\<exists>c \<in> set calls. unnamed c"
  from run_calls_no_abort [OF na, of calls s]
  obtain vs where 1: "length vs = length (names_of calls)"
    "currentInputParts (run_calls e calls s) =
       currentInputParts s @ map2 FunctionResponse (names_of calls) vs"
    by auto
  have rn: "response_names (map2 FunctionResponse ns vs') = ns" if "length vs' = length ns"
    for ns vs'
    using that by (induction ns vs' rule: list_induct2') simp_all
  let ?ps = "map2 FunctionResponse (names_of calls) vs"
  have "currentInputParts (run_calls e calls s) = currentInputParts s @ ?ps \<and>
        length ?ps < length calls \<and> response_names ?ps = names_of calls \<and>
        length ?ps = length (names_of calls)"
    using 1 names_of_some_unnamed [OF un] rn [of vs "names_of calls"] by simp
  then show "\<exists>ps. currentInputParts (run_calls e calls s) = currentInputParts s @ ps \<and>
              length ps < length calls \<and> response_names ps = names_of calls \<and>
              length ps = length (names_of calls)"
    by blast
qed

text \<open>The theorem at a turn of a call without a name followed by a click.\<close>

theorem unnamed_call_skipped_witness:
  "unnamed nameless_call \<and> \<not> aborted quiet_env (clock (ios start_state))
   \<and> run_calls quiet_env [nameless_call, click ''1''] start_state =
       run_calls quiet_env [click ''1''] (start_state\<lparr>ios := emit UnnamedCall (ios start_state)\<rparr>)
   \<and> currentInputParts (run_calls quiet_env [nameless_call, click ''1''] start_state) =
       [FunctionResponse ''click'' (Str [])]"
proof -
  have u: "unnamed nameless_call" by (simp add: unnamed_def nameless_call_def)
  have a: "\<not> aborted quiet_env (clock (ios start_state))"
    by (simp add: aborted_def quiet_env_def)
  have ev: "currentInputParts (run_calls quiet_env [nameless_call, click ''1''] start_state) =
       [FunctionResponse ''click'' (Str [])]"
    by (simp add: sample_defs run_defs Let_def)
  from unnamed_call_skipped [of quiet_env start_state nameless_call "[click ''1'']"] u a ev
  show ?thesis by simp
qed

section \<open>Completion\<close>

lemma browser_case_flags:
  "browser_case e method fnArgs s = (r, s') \<Longrightarrow>
   taskCompleted s' = taskCompleted s \<and> taskSummary s' = taskSummary s"
  by (auto simp: browser_case_def split: prod.splits sum.splits)

lemma switch_call_flags:
  assumes "switch_call e fnName fnArgs s = (r, s')" and "fnName \<noteq> ''complete_task''"
  shows "taskCompleted s' = taskCompleted s \<and> taskSummary s' = taskSummary s"
  using assms
  by (auto simp: switch_call_def Let_def split: option.splits if_splits prod.splits sum.splits
      dest: browser_case_flags)

lemma execute_call_flags:
  assumes "fnName \<noteq> ''complete_task''"
  shows "taskCompleted (execute_call e fnName fnArgs s) = taskCompleted s \<and>
         taskSummary (execute_call e fnName fnArgs s) = taskSummary s"
proof -
  let ?s0 = "s\<lparr>ios := emit (Executing (clock (ios s)) fnName fnArgs) (ios s)\<rparr>"
  obtain r s' where tb: "try_body e fnName fnArgs ?s0 = (r, s')" by fastforce
  have "taskCompleted s' = taskCompleted s \<and> taskSummary s' = taskSummary s"
  proof (cases "mcp_client e (clock (ios ?s0))")
    case (Some msg)
    with tb show ?thesis by (auto simp: try_body_def)
  next
    case None
    obtain r1 s1 where sw: "switch_call e fnName fnArgs (?s0\<lparr>ios := tick (ios ?s0)\<rparr>) = (r1, s1)"
      by fastforce
    from tb None sw have "s' = s1"
      by (auto simp: try_body_def split: sum.splits prod.splits)
    with switch_call_flags [OF sw assms] show ?thesis by simp
  qed
  then show ?thesis by (simp add: execute_call_def tb)
qed

lemma execute_complete_task:
  assumes "mcp_client e (clock (ios s)) = None"
  shows "taskCompleted (execute_call e ''complete_task'' fnArgs s) \<and>
         taskSummary (execute_call e ''complete_task'' fnArgs s) =
           or_else (map_of fnArgs ''summary'') ''Task completed''"
  using assms
  by (simp add: execute_call_def try_body_def switch_call_def mcp_operation_def emit_def
      tick_def Let_def post_process_def semantic_tools_def falsy_def)

lemma run_calls_flags:
  assumes "\<forall>c \<in> set calls. fc_name c \<noteq> Some ''complete_task''"
  shows "taskCompleted (run_calls e calls s) = taskCompleted s \<and>
         taskSummary (run_calls e calls s) = taskSummary s"
  using assms
proof (induction calls arbitrary: s)
  case Nil
  show ?case by simp
next
  case (Cons call calls)
  let ?n = "name_str (fc_name call)"
  let ?a = "case fc_args call of None \<Rightarrow> [] | Some a \<Rightarrow> a"
  have ih: "taskCompleted (run_calls e calls s1) = taskCompleted s1 \<and>
         taskSummary (run_calls e calls s1) = taskSummary s1" for s1
    using Cons.IH Cons.prems by simp
  show ?case
  proof (cases "aborted e (clock (ios s)) \<or> unnamed call")
    case True
    then show ?thesis using ih by auto
  next
    case False
    then have "?n \<noteq> ''complete_task''"
      using Cons.prems by (cases "fc_name call") (auto simp: name_str_def)
    from execute_call_flags [OF this, of e ?a s] ih [of "execute_call e ?n ?a s"] False
    show ?thesis by simp
  qed
qed

lemma summary_of_not_empty: "summary_of call \<noteq> []"
  by (simp add: summary_of_def or_else_def split: option.splits)

lemma run_calls_completes:
  assumes na: "abort_at e = None" and mc: "\<forall>t. mcp_client e t = None"
    and c: "fc_name call = Some ''complete_task''"
    and after: "\<forall>c \<in> set after. fc_name c \<noteq> Some ''complete_task''"
  shows "taskCompleted (run_calls e (before @ call # after) s) \<and>
         taskSummary (run_calls e (before @ call # after) s) = summary_of call"
proof -
  let ?s1 = "run_calls e before s"
  let ?a = "case fc_args call of None \<Rightarrow> [] | Some a \<Rightarrow> a"
  let ?s2 = "execute_call e ''complete_task'' ?a ?s1"
  have "run_calls e (before @ call # after) s = run_calls e after ?s2"
    using na c by (simp add: run_calls_append unnamed_def name_str_def)
  moreover have "taskCompleted ?s2 \<and> taskSummary ?s2 = summary_of call"
    using execute_complete_task [of e ?s1 ?a] mc by (simp add: summary_of_def)
  ultimately show ?thesis using run_calls_flags [OF after, of e ?s2] by simp
qed

text \<open>
  Claim C2, as the code has it. With no cancellation and the protocol client at hand, a
  turn whose calls include \<open>complete_task\<close> executes every named call of the turn, those
  after \<open>complete_task\<close> too, and then ends the loop: \<open>runTask\<close> returns the summary argument
  of the last \<open>complete_task\<close> of the turn (\<open>Task completed\<close> when it is missing or empty),
  and no model call of the orchestrator follows that of the turn.
\<close>

theorem complete_task_ends_loop:
  "abort_at e = None \<longrightarrow> (\<forall>t. mcp_client e t = None) \<longrightarrow> n < MAX_ITERATIONS \<longrightarrow>
   throws_free (send_message_stream e (clock (ios s)) (currentInputParts s)) \<longrightarrow>
   stream_calls (send_message_stream e (clock (ios s)) (currentInputParts s)) =
     before @ call # after \<longrightarrow>
   fc_name call = Some ''complete_task'' \<longrightarrow>
   (\<forall>c \<in> set after. fc_name c \<noteq> Some ''complete_task'') \<longrightarrow>
   fst (runLoop e n s) = summary_of call
   \<and> taskCompleted (snd (runLoop e n s))
   \<and> model_inputs (trace (ios (snd (runLoop e n s)))) =
       model_inputs (trace (ios s)) @ [currentInputParts s]
   \<and> executed (trace (ios (snd (runLoop e n s)))) =
       executed (trace (ios s)) @ names_of (before @ call # after)"
proof (intro impI)
  let ?calls = "before @ call # after"
  assume na: "abort_at e = None" and mc: "\<forall>t. mcp_client e t = None"
    and n: "n < MAX_ITERATIONS"
    and tf: "throws_free (send_message_stream e (clock (ios s)) (currentInputParts s))"
    and sc: "stream_calls (send_message_stream e (clock (ios s)) (currentInputParts s)) = ?calls"
    and c: "fc_name call = Some ''complete_task''"
    and after: "\<forall>c \<in> set after. fc_name c \<noteq> Some ''complete_task''"
  have ne: "?calls \<noteq> []" by simp
  from iteration_executes [OF na tf sc ne] obtain s1 where
    t1: "trace s1 = trace (ios s) @ [ModelCall (clock (ios s)) (currentInputParts s)]" and
    it: "iteration e s =
           (let s2 = run_calls e ?calls (s\<lparr>ios := s1, currentInputParts := []\<rparr>)
            in (if taskCompleted s2 then Break else Continue, s2))"
    by blast
  let ?s2 = "run_calls e ?calls (s\<lparr>ios := s1, currentInputParts := []\<rparr>)"
  from run_calls_completes [OF na mc c after, of before "s\<lparr>ios := s1, currentInputParts := []\<rparr>"]
  have fl: "taskCompleted ?s2" "taskSummary ?s2 = summary_of call" by simp_all
  have rl: "runLoop e n s = (summary_of call, ?s2)"
    using n it fl summary_of_not_empty [of call]
    by (simp add: runLoop_step Let_def finish_def or_else_def)
  from run_calls_no_abort [OF na, of ?calls "s\<lparr>ios := s1, currentInputParts := []\<rparr>"]
  obtain evs where "trace (ios ?s2) = trace s1 @ evs" "executed evs = names_of ?calls"
    "model_inputs evs = []"
    by auto
  with t1 rl fl show "fst (runLoop e n s) = summary_of call
   \<and> taskCompleted (snd (runLoop e n s))
   \<and> model_inputs (trace (ios (snd (runLoop e n s)))) =
       model_inputs (trace (ios s)) @ [currentInputParts s]
   \<and> executed (trace (ios (snd (runLoop e n s)))) =
       executed (trace (ios s)) @ names_of (before @ call # after)"
    by simp
qed

text \<open>The theorem at a turn that completes the task and then asks for a click.\<close>

theorem complete_task_ends_loop_witness:
  "fst (runLoop complete_then_click_env 0 start_state) = ''Done''
   \<and> executed (trace (ios (snd (runLoop complete_then_click_env 0 start_state)))) =
       [''complete_task'', ''click'']
   \<and> model_inputs (trace (ios (snd (runLoop complete_then_click_env 0 start_state)))) = [[]]"
proof -
  let ?e = complete_then_click_env
  have 1: "abort_at ?e = None" "\<forall>t. mcp_client ?e t = None" "(0::nat) < MAX_ITERATIONS"
    by (simp_all add: sample_defs MAX_ITERATIONS_def)
  have 2: "throws_free (send_message_stream ?e (clock (ios start_state)) (currentInputParts start_state))"
    "stream_calls (send_message_stream ?e (clock (ios start_state)) (currentInputParts start_state)) =
       [] @ complete ''Done'' # [click ''1'']"
    by (simp_all add: sample_defs)
  have 3: "fc_name (complete ''Done'') = Some ''complete_task''"
    "\<forall>c \<in> set [click ''1'']. fc_name c \<noteq> Some ''complete_task''"
    by (simp_all add: sample_defs)
  have 4: "summary_of (complete ''Done'') = ''Done''"
    "names_of ([] @ complete ''Done'' # [click ''1'']) = [''complete_task'', ''click'']"
    "trace (ios start_state) = []" "currentInputParts start_state = []"
    by (simp_all add: sample_defs summary_of_def or_else_def names_of_def
        unnamed_def name_str_def)
  from complete_task_ends_loop [where e = ?e and n = 0 and s = start_state and before = "[]"
      and call = "complete ''Done''" and after = "[click ''1'']"] 1 2 3
  have "fst (runLoop ?e 0 start_state) = summary_of (complete ''Done'')
   \<and> taskCompleted (snd (runLoop ?e 0 start_state))
   \<and> model_inputs (trace (ios (snd (runLoop ?e 0 start_state)))) =
       model_inputs (trace (ios start_state)) @ [currentInputParts start_state]
   \<and> executed (trace (ios (snd (runLoop ?e 0 start_state)))) =
       executed (trace (ios start_state)) @ names_of ([] @ complete ''Done'' # [click ''1''])"
    by blast
  then show ?thesis unfolding 4 by simp
qed

text \<open>
  Claim C2 as stated fails in its part (a): \<open>break\<close> in the case of \<open>complete_task\<close> leaves the
  \<open>switch\<close>, not the loop over the calls, so a click that follows \<open>complete_task\<close> in the same
  turn is executed, protocol call and all.
\<close>

theorem call_after_complete_task_counterexample:
  "trace (ios (snd (runTask complete_then_click_env ''x''))) =
     [McpCall ''take_snapshot'' [(''verbose'', ''false'')],
      ModelCall 5 [TextPart ''Task: x''],
      Executing 7 ''complete_task'' [(''summary'', ''Done'')],
      Executing 8 ''click'' [(''uid'', ''1'')],
      McpCall ''click'' [(''uid'', ''1'')]]
   \<and> fst (runTask complete_then_click_env ''x'') = ''Done''"
  by (simp add: runTask_def sample_defs runLoop_step
      MAX_ITERATIONS_def run_defs Let_def)

section \<open>Cancellation\<close>

text \<open>
  Claim C4. When the signal is set at the top of the loop, the loop ends there: no model
  call is made and the task returns the summary it has, or the default message. When it
  is set before a queued tool, that tool and the rest of the batch are skipped. When it is
  set while the stream is read, reading stops, and the calls collected so far are not
  executed. In the whole run of a task no model call is issued and no tool is started at
  a time when the signal is set, \<open>complete_task\<close> included.
\<close>

theorem cancellation_stops_loop:
  "(aborted e (clock (ios s)) \<longrightarrow> n < MAX_ITERATIONS \<longrightarrow>
      runLoop e n s = finish (s\<lparr>ios := emit Cancelled (ios s)\<rparr>))
   \<and> (aborted e (clock (ios s)) \<longrightarrow>
        run_calls e (call # calls) s = s\<lparr>ios := emit Cancelled (ios s)\<rparr>)
   \<and> (aborted e (clock (tick s1)) \<longrightarrow>
        consume_stream e (Chunk cs # events) collected s1 = (Inr collected, tick s1) \<and>
        consume_stream e (NotChunk # events) collected s1 = (Inr collected, tick s1))
   \<and> (\<not> aborted e (clock (ios s)) \<longrightarrow>
        consume_stream e (send_message_stream e (clock (ios s)) (currentInputParts s)) []
          (emit (ModelCall (clock (ios s)) (currentInputParts s)) (ios s)) = (Inr collected, s2) \<longrightarrow>
        aborted e (clock s2) \<longrightarrow>
        iteration e s = (Break, s\<lparr>ios := emit Cancelled s2\<rparr>))
   \<and> list_all (timely e) (trace (ios (snd (runTask e prompt))))"
proof (intro conjI impI)
  assume "aborted e (clock (ios s))" "n < MAX_ITERATIONS"
  then show "runLoop e n s = finish (s\<lparr>ios := emit Cancelled (ios s)\<rparr>)"
    by (simp add: runLoop_step iteration_def)
next
  assume "aborted e (clock (ios s))"
  then show "run_calls e (call # calls) s = s\<lparr>ios := emit Cancelled (ios s)\<rparr>"
    by simp
next
  assume "aborted e (clock (tick s1))"
  then show "consume_stream e (Chunk cs # events) collected s1 = (Inr collected, tick s1)"
    and "consume_stream e (NotChunk # events) collected s1 = (Inr collected, tick s1)"
    by simp_all
next
  assume "\<not> aborted e (clock (ios s))"
    "consume_stream e (send_message_stream e (clock (ios s)) (currentInputParts s)) []
          (emit (ModelCall (clock (ios s)) (currentInputParts s)) (ios s)) = (Inr collected, s2)"
    "aborted e (clock s2)"
  then show "iteration e s = (Break, s\<lparr>ios := emit Cancelled s2\<rparr>)"
    by (simp add: iteration_def Let_def)
next
  show "list_all (timely e) (trace (ios (snd (runTask e prompt))))"
    by (rule runTask_timely)
qed

text \<open>
  The theorem at a task that is cancelled while the first of three clicks runs: one click
  is executed, and the state before the second click is a cancelled one.
\<close>

theorem cancellation_stops_loop_witness:
  "executed (trace (ios (snd (runTask cancel_env ''x'')))) = [''click'']
   \<and> fst (runTask cancel_env ''x'') = ''Task finished''
   \<and> list_all (timely cancel_env) (trace (ios (snd (runTask cancel_env ''x''))))
   \<and> aborted cancel_env (clock (ios (start_state\<lparr>ios := \<lparr> clock = 9, trace = [] \<rparr>\<rparr>)))
   \<and> run_calls cancel_env [click ''2'', click ''3'']
        (start_state\<lparr>ios := \<lparr> clock = 9, trace = [] \<rparr>\<rparr>) =
      start_state\<lparr>ios := \<lparr> clock = 9, trace = [Cancelled] \<rparr>\<rparr>
   \<and> runLoop cancel_env 1 (start_state\<lparr>ios := \<lparr> clock = 9, trace = [] \<rparr>\<rparr>) =
      (''Task finished'', start_state\<lparr>ios := \<lparr> clock = 9, trace = [Cancelled] \<rparr>\<rparr>)"
proof -
  let ?s = "start_state\<lparr>ios := \<lparr> clock = 9, trace = [] \<rparr>\<rparr>"
  have a: "aborted cancel_env (clock (ios ?s))"
    by (simp add: aborted_def cancel_env_def)
  have n: "(1::nat) < MAX_ITERATIONS" by (simp add: MAX_ITERATIONS_def)
  note t = cancellation_stops_loop [where e = cancel_env and s = ?s and n = 1
      and call = "click ''2''" and calls = "[click ''3'']" and prompt = "''x''"]
  have run: "executed (trace (ios (snd (runTask cancel_env ''x'')))) = [''click'']
     \<and> fst (runTask cancel_env ''x'') = ''Task finished''"
    by (simp add: runTask_def sample_defs runLoop_step MAX_ITERATIONS_def run_defs Let_def)
  from t a n run show ?thesis
    by (simp add: emit_def finish_def or_else_def start_state_def)
qed

section \<open>Errors of a tool\<close>

lemma with_hint_prefix: "\<exists>rest. with_hint (Str t) = Str (t @ rest)"
  by (simp add: with_hint_def)

text \<open>
  Claim C5. In the orchestrator, when the execution of a call throws, the message becomes
  the text of that call's function response, after \<open>Error executing\<close>, the name of the
  tool and a colon (the overlay hint may follow it); the loop then goes on with the
  remaining calls, so with no cancellation every named call of the batch is executed
  whatever was thrown. In the visual delegate the message becomes the \<open>error\<close> field of
  the result of the call, and every call of the batch is executed and answered. Neither
  loop over the calls has an exit by exception.
\<close>

theorem tool_error_captured:
  "(try_body e fnName fnArgs
      (s\<lparr>ios := emit (Executing (clock (ios s)) fnName fnArgs) (ios s)\<rparr>) = (Inl msg, s') \<longrightarrow>
      execute_call e fnName fnArgs s =
        s'\<lparr>currentInputParts := currentInputParts s @
             [FunctionResponse fnName
                (with_hint (Str (''Error executing '' @ fnName @ '': '' @ msg)))]\<rparr>
      \<and> (\<exists>rest. with_hint (Str (''Error executing '' @ fnName @ '': '' @ msg)) =
                  Str (''Error executing '' @ fnName @ '': '' @ msg @ rest)))
   \<and> (\<not> aborted e (clock (ios s)) \<longrightarrow> \<not> unnamed call \<longrightarrow>
        run_calls e (call # calls) s =
          run_calls e calls
            (execute_call e (name_str (fc_name call))
               (case fc_args call of None \<Rightarrow> [] | Some a \<Rightarrow> a) s))
   \<and> (abort_at e = None \<longrightarrow>
        (\<exists>evs. trace (ios (run_calls e calls s)) = trace (ios s) @ evs \<and>
               executed evs = names_of calls))
   \<and> (visual_switch e call (emit (VisualExecuting (fc_name call)) v) = (Inl msg, v') \<longrightarrow>
        run_visual_calls e (call # calls) (rs, h, v) =
          run_visual_calls e calls
            (rs @ [VisualResponse (fc_name call)
                     \<lparr> tr_output = None, tr_error = Some msg, tr_url = None \<rparr>],
             h @ [history_entry e call \<lparr> tr_output = None, tr_error = Some msg, tr_url = None \<rparr>],
             v'))
   \<and> (\<exists>new evs. fst (run_visual_calls e calls (rs, h, v)) = rs @ new \<and>
          length new = length calls \<and>
          trace (snd (snd (run_visual_calls e calls (rs, h, v)))) = trace v @ evs \<and>
          visual_executed evs = map fc_name calls)"
proof (intro conjI impI)
  assume tb: "try_body e fnName fnArgs
      (s\<lparr>ios := emit (Executing (clock (ios s)) fnName fnArgs) (ios s)\<rparr>) = (Inl msg, s')"
  from try_body_frame [OF tb] have "currentInputParts s' = currentInputParts s" by simp
  then show "execute_call e fnName fnArgs s =
        s'\<lparr>currentInputParts := currentInputParts s @
             [FunctionResponse fnName
                (with_hint (Str (''Error executing '' @ fnName @ '': '' @ msg)))]\<rparr>"
    by (simp add: execute_call_def tb caught_def)
  show "\<exists>rest. with_hint (Str (''Error executing '' @ fnName @ '': '' @ msg)) =
                  Str (''Error executing '' @ fnName @ '': '' @ msg @ rest)"
    using with_hint_prefix [of "''Error executing '' @ fnName @ '': '' @ msg"] by simp
next
  assume "\<not> aborted e (clock (ios s))" "\<not> unnamed call"
  then show "run_calls e (call # calls) s =
          run_calls e calls
            (execute_call e (name_str (fc_name call))
               (case fc_args call of None \<Rightarrow> [] | Some a \<Rightarrow> a) s)"
    by simp
next
  assume "abort_at e = None"
  from run_calls_no_abort [OF this, of calls s]
  show "\<exists>evs. trace (ios (run_calls e calls s)) = trace (ios s) @ evs \<and>
               executed evs = names_of calls"
    by blast
next
  assume "visual_switch e call (emit (VisualExecuting (fc_name call)) v) = (Inl msg, v')"
  then show "run_visual_calls e (call # calls) (rs, h, v) =
          run_visual_calls e calls
            (rs @ [VisualResponse (fc_name call)
                     \<lparr> tr_output = None, tr_error = Some msg, tr_url = None \<rparr>],
             h @ [history_entry e call \<lparr> tr_output = None, tr_error = Some msg, tr_url = None \<rparr>],
             v')"
    by (simp add: visual_result_def)
next
  obtain rs' h' v' where r: "run_visual_calls e calls (rs, h, v) = (rs', h', v')"
    by (cases "run_visual_calls e calls (rs, h, v)") auto
  from run_visual_calls_all [OF r] r
  show "\<exists>new evs. fst (run_visual_calls e calls (rs, h, v)) = rs @ new \<and>
          length new = length calls \<and>
          trace (snd (snd (run_visual_calls e calls (rs, h, v)))) = trace v @ evs \<and>
          visual_executed evs = map fc_name calls"
    by auto
qed

text \<open>
  The theorem at two clicks whose protocol call throws, and at two visual clicks whose
  browser tool throws.
\<close>

theorem tool_error_captured_witness:
  "try_body failing_env ''click'' [(''uid'', ''1'')]
      (start_state\<lparr>ios := emit (Executing 3 ''click'' [(''uid'', ''1'')]) (ios start_state)\<rparr>) =
     (Inl ''boom'',
      start_state\<lparr>ios := \<lparr> clock = 5,
         trace = [Executing 3 ''click'' [(''uid'', ''1'')], McpCall ''click'' [(''uid'', ''1'')]] \<rparr>\<rparr>)
   \<and> currentInputParts (execute_call failing_env ''click'' [(''uid'', ''1'')] start_state) =
       [FunctionResponse ''click'' (Str ''Error executing click: boom'')]
   \<and> currentInputParts (run_calls failing_env [click ''1'', click ''2''] start_state) =
       [FunctionResponse ''click'' (Str ''Error executing click: boom''),
        FunctionResponse ''click'' (Str ''Error executing click: boom'')]
   \<and> fst (run_visual_calls failing_env [named_call ''click_at'' [], named_call ''click_at'' []]
            ([], [], ios start_state)) =
       [VisualResponse (Some ''click_at'') \<lparr> tr_output = None, tr_error = Some ''boom'', tr_url = None \<rparr>,
        VisualResponse (Some ''click_at'') \<lparr> tr_output = None, tr_error = Some ''boom'', tr_url = None \<rparr>]"
proof -
  let ?s0 = "start_state\<lparr>ios := emit (Executing 3 ''click'' [(''uid'', ''1'')]) (ios start_state)\<rparr>"
  let ?s1 = "start_state\<lparr>ios := \<lparr> clock = 5,
         trace = [Executing 3 ''click'' [(''uid'', ''1'')], McpCall ''click'' [(''uid'', ''1'')]] \<rparr>\<rparr>"
  have tb: "try_body failing_env ''click'' [(''uid'', ''1'')] ?s0 = (Inl ''boom'', ?s1)"
    by (simp add: sample_defs run_defs)
  have c: "clock (ios start_state) = 3" by (simp add: start_state_def)
  have h: "with_hint (Str ''Error executing click: boom'') = Str ''Error executing click: boom''"
    by (simp add: with_hint_def blocked_by_overlay_def)
  have p: "currentInputParts start_state = []" by (simp add: start_state_def)
  from tool_error_captured [where e = failing_env and s = start_state and fnName = "''click''"
      and fnArgs = "[(''uid'', ''1'')]" and msg = "''boom''" and s' = ?s1] tb c
  have "execute_call failing_env ''click'' [(''uid'', ''1'')] start_state =
        ?s1\<lparr>currentInputParts := currentInputParts start_state @
             [FunctionResponse ''click''
                (with_hint (Str (''Error executing '' @ ''click'' @ '': '' @ ''boom'')))]\<rparr>"
    by simp
  then have ex: "currentInputParts (execute_call failing_env ''click'' [(''uid'', ''1'')] start_state) =
       [FunctionResponse ''click'' (Str ''Error executing click: boom'')]"
    using h p by simp
  have rc: "currentInputParts (run_calls failing_env [click ''1'', click ''2''] start_state) =
       [FunctionResponse ''click'' (Str ''Error executing click: boom''),
        FunctionResponse ''click'' (Str ''Error executing click: boom'')]"
    by (simp add: sample_defs run_defs Let_def)
  have rv: "fst (run_visual_calls failing_env [named_call ''click_at'' [], named_call ''click_at'' []]
            ([], [], ios start_state)) =
       [VisualResponse (Some ''click_at'') \<lparr> tr_output = None, tr_error = Some ''boom'', tr_url = None \<rparr>,
        VisualResponse (Some ''click_at'') \<lparr> tr_output = None, tr_error = Some ''boom'', tr_url = None \<rparr>]"
    by (simp add: sample_defs run_defs visual_switch_def visual_result_def Let_def)
  from tb ex rc rv show ?thesis by simp
qed

section \<open>An error of the model call\<close>

text \<open>
  Claim C1 on the code: when the model call throws the error of an empty stream, the
  condition is recognised and a warning is logged, and then the task returns the error
  message like for any other error. No second model call is made.
\<close>

theorem empty_stream_error_returns:
  "fst (runTask empty_stream_env ''x'') =
     ''Error calling model: Model stream ended with empty response text''
   \<and> length (model_inputs (trace (ios (snd (runTask empty_stream_env ''x''))))) = 1
   \<and> last (trace (ios (snd (runTask empty_stream_env ''x'')))) = EmptyStreamWarning"
  by (simp add: runTask_def sample_defs empty_stream_text_def runLoop_step
      MAX_ITERATIONS_def run_defs Let_def)

section \<open>The bounds of the two loops\<close>







section \<open>The bound of the visual loop\<close>






section \<open>How a task can end\<close>








section \<open>The end-to-end scenario\<close>

text \<open>
  The task \<open>navigate to example.com\<close>: the model navigates in its first turn and completes
  in the second. \<open>runTask\<close> returns \<open>Done\<close>, and the protocol client receives one
  \<open>navigate_page\<close> call, with the url.
\<close>

lemma navigate_scenario:
  "fst (runTask navigate_env ''navigate to example.com'') = ''Done''
   \<and> trace (ios (snd (runTask navigate_env ''navigate to example.com''))) =
       [McpCall ''take_snapshot'' [(''verbose'', ''false'')],
        ModelCall 5 [TextPart ''Task: navigate to example.com''],
        Executing 7 ''navigate'' [(''url'', ''https://example.com'')],
        McpCall ''navigate_page'' [(''url'', ''https://example.com'')],
        ModelCall 9 [FunctionResponse ''navigate'' (Str [])],
        Executing 11 ''complete_task'' [(''summary'', ''Done'')]]"
  by (simp add: runTask_def sample_defs runLoop_step MAX_ITERATIONS_def run_defs Let_def)

end
